theory Spec2Isabelle
  imports Complex_Main
begin

section \<open>Text primitives\<close>

text \<open>
  Python \<open>str\<close> values are modelled as \<open>string\<close>. The model covers ASCII text (plus the
  bullet sign, which appears in the source as a literal): the whitespace characters are the
  ASCII characters for which \<open>str.isspace\<close> holds, and the line boundaries are the ASCII
  ones of \<open>str.splitlines\<close>.
\<close>

definition is_space :: "char \<Rightarrow> bool" where
  "is_space c = (c = CHR '' '' \<or> c = CHR 0x09 \<or> c = CHR 0x0A \<or> c = CHR 0x0B \<or> c = CHR 0x0C
     \<or> c = CHR 0x0D \<or> c = CHR 0x1C \<or> c = CHR 0x1D \<or> c = CHR 0x1E \<or> c = CHR 0x1F)"

definition lstrip :: "string \<Rightarrow> string" where
  "lstrip s = dropWhile is_space s"

definition rstrip :: "string \<Rightarrow> string" where
  "rstrip s = rev (dropWhile is_space (rev s))"

text \<open>\<open>s.strip()\<close>\<close>

definition strip :: "string \<Rightarrow> string" where
  "strip s = rstrip (lstrip s)"

text \<open>\<open>s.startswith(p)\<close>\<close>

definition startswith :: "string \<Rightarrow> string \<Rightarrow> bool" where
  "startswith s p = (take (length p) s = p)"

text \<open>\<open>"\n".join(lines)\<close>\<close>

fun join_nl :: "string list \<Rightarrow> string" where
  "join_nl [] = []"
| "join_nl [l] = l"
| "join_nl (l # m # ls) = l @ [CHR 0x0A] @ join_nl (m # ls)"

definition is_linebreak :: "char \<Rightarrow> bool" where
  "is_linebreak c = (c = CHR 0x0A \<or> c = CHR 0x0B \<or> c = CHR 0x0C \<or> c = CHR 0x0D
     \<or> c = CHR 0x1C \<or> c = CHR 0x1D \<or> c = CHR 0x1E)"

text \<open>
  \<open>s.splitlines()\<close>: the text is cut at every line boundary (a carriage return followed by a
  line feed is one boundary), the boundaries are dropped, and no empty last line is produced.
\<close>

fun splitlines_from :: "string \<Rightarrow> string \<Rightarrow> string list" where
  "splitlines_from cur [] = (if cur = [] then [] else [cur])"
| "splitlines_from cur [c] =
     (if is_linebreak c then [cur] else [cur @ [c]])"
| "splitlines_from cur (c # d # cs) =
     (if c = CHR 0x0D \<and> d = CHR 0x0A then cur # splitlines_from [] cs
      else if is_linebreak c then cur # splitlines_from [] (d # cs)
      else splitlines_from (cur @ [c]) (d # cs))"

definition splitlines :: "string \<Rightarrow> string list" where
  "splitlines s = splitlines_from [] s"

text \<open>\<open>s.split()\<close>: the maximal runs of non-whitespace characters.\<close>

fun split_from :: "string \<Rightarrow> string \<Rightarrow> string list" where
  "split_from cur [] = (if cur = [] then [] else [cur])"
| "split_from cur (c # cs) =
     (if is_space c then (if cur = [] then split_from [] cs else cur # split_from [] cs)
      else split_from (cur @ [c]) cs)"

definition split :: "string \<Rightarrow> string list" where
  "split s = split_from [] s"

text \<open>
  \<open>raw.lstrip("\<bullet> ")\<close>: leading blanks and bullet signs are removed. The bullet sign
  U+2022 is the byte sequence E2 80 A2 in the UTF-8 text the model works on.
\<close>

fun lstrip_bullet :: "string \<Rightarrow> string" where
  "lstrip_bullet [] = []"
| "lstrip_bullet (c # cs) =
     (if c = CHR '' '' then lstrip_bullet cs
      else if c = CHR 0xE2 \<and> take 2 cs = [CHR 0x80, CHR 0xA2] then lstrip_bullet (drop 2 cs)
      else c # cs)"


section \<open>Corpus records\<close>

text \<open>
  A chunk record of the JSON corpus. The code reads every field through \<open>dict.get\<close> with a
  default, so an absent \<open>text\<close> is the empty string and an absent \<open>list\<close> or \<open>Content\<close> is
  the empty list; an absent \<open>Section\<close> or \<open>Subsection\<close> is falsy like the empty string.
\<close>

datatype item = Item (item_text: string) (item_list: "item list")

datatype block = Block (block_text: string) (block_list: "item list")

record entry =
  Section :: string
  Subsection :: string
  Content :: "block list"


section \<open>Corpus flattener of the lexical index (BM25Preprocessor)\<close>

text \<open>\<open>BM25Preprocessor.process_list\<close>: the accumulator \<open>lines\<close> is returned extended.\<close>

fun process_list :: "item list \<Rightarrow> nat \<Rightarrow> string list \<Rightarrow> string list" where
  "process_list [] depth lines = lines"
| "process_list (Item t nested # rest) depth lines =
     (let raw = strip t;
          lines1 = (if depth = 0 then lines @ [raw]
                    else lines @ [replicate (depth * 8) (CHR '' '') @ ''* '' @ strip (lstrip_bullet raw)]);
          lines2 = (if nested \<noteq> [] then process_list nested (depth + 1) lines1 else lines1)
      in process_list rest depth lines2)"

text \<open>The loop over the blocks of \<open>Content\<close> in \<open>BM25Preprocessor.flatten_content\<close>.\<close>

fun flatten_blocks :: "block list \<Rightarrow> string list \<Rightarrow> string list" where
  "flatten_blocks [] lines = lines"
| "flatten_blocks (Block t l # rest) lines =
     (let text = strip t;
          lines1 = (if text \<noteq> [] then lines @ [text] else lines)
      in flatten_blocks rest (process_list l 0 lines1))"

text \<open>\<open>BM25Preprocessor.flatten_content\<close>\<close>

definition flatten_content :: "entry \<Rightarrow> string" where
  "flatten_content e =
     (let lines0 = (if Section e \<noteq> [] then [''Section: '' @ Section e @ ''.''] else []);
          lines1 = (if Subsection e \<noteq> [] then lines0 @ [''Subsection: '' @ Subsection e @ ''.'']
                    else lines0)
      in join_nl (flatten_blocks (Content e) lines1))"


section \<open>Corpus flattener of the semantic index (LegalKnowledgeIndexer)\<close>

text \<open>\<open>LegalKnowledgeIndexer.process_list\<close>: nested items are marked with a dash.\<close>

fun sem_process_list :: "item list \<Rightarrow> nat \<Rightarrow> string list \<Rightarrow> string list" where
  "sem_process_list [] depth lines = lines"
| "sem_process_list (Item t nested # rest) depth lines =
     (let raw = strip t;
          lines1 = (if depth = 0 then lines @ [raw]
                    else lines @ [replicate (depth * 8) (CHR '' '') @ ''- '' @ strip (lstrip_bullet raw)]);
          lines2 = (if nested \<noteq> [] then sem_process_list nested (depth + 1) lines1 else lines1)
      in sem_process_list rest depth lines2)"

fun sem_flatten_blocks :: "block list \<Rightarrow> string list \<Rightarrow> string list" where
  "sem_flatten_blocks [] lines = lines"
| "sem_flatten_blocks (Block t l # rest) lines =
     (let text = strip t;
          lines1 = (if text \<noteq> [] then lines @ [text] else lines)
      in sem_flatten_blocks rest (sem_process_list l 0 lines1))"

text \<open>\<open>next_ln.lstrip().startswith(("\<bullet>", "-"))\<close>\<close>

definition is_bullet_line :: "string \<Rightarrow> bool" where
  "is_bullet_line line =
     (startswith (lstrip line) [CHR 0xE2, CHR 0x80, CHR 0xA2] \<or> startswith (lstrip line) ''-'')"

definition is_heading :: "string \<Rightarrow> bool" where
  "is_heading line = (startswith line ''Section:'' \<or> startswith line ''Subsection:'')"

text \<open>The second loop of \<open>LegalKnowledgeIndexer.flatten_content\<close>, which inserts blank lines.\<close>

fun out_lines :: "string list \<Rightarrow> string list" where
  "out_lines [] = []"
| "out_lines [line] = [line]"
| "out_lines (line # next_ln # rest) =
     (if is_bullet_line next_ln
      then (if is_heading line then line # [] # out_lines (next_ln # rest)
            else line # out_lines (next_ln # rest))
      else line # [] # out_lines (next_ln # rest))"

text \<open>\<open>LegalKnowledgeIndexer.flatten_content\<close>\<close>

definition sem_flatten_content :: "entry \<Rightarrow> string" where
  "sem_flatten_content e = join_nl (out_lines (sem_flatten_blocks (Content e) []))"


section \<open>Python containers and errors\<close>

datatype py_error = ZeroDivisionError | IndexError | ValueError string

text \<open>
  A \<open>dict\<close> whose iteration order matters is an association list in insertion order with
  distinct keys. \<open>d[k] = v\<close> overwrites the value of a present key in place and appends a
  new key at the end.
\<close>

fun dict_set :: "'k \<Rightarrow> 'v \<Rightarrow> ('k \<times> 'v) list \<Rightarrow> ('k \<times> 'v) list" where
  "dict_set k v [] = [(k, v)]"
| "dict_set k v (p # ps) = (if fst p = k then (k, v) # ps else p # dict_set k v ps)"

text \<open>\<open>d.get(k, default)\<close>\<close>

definition dict_get :: "('k \<times> 'v) list \<Rightarrow> 'k \<Rightarrow> 'v \<Rightarrow> 'v" where
  "dict_get d k dflt = (case map_of d k of None \<Rightarrow> dflt | Some v \<Rightarrow> v)"

text \<open>\<open>xs[i]\<close> with Python's negative indices.\<close>

definition py_index :: "'a list \<Rightarrow> int \<Rightarrow> py_error + 'a" where
  "py_index xs i =
     (if 0 \<le> i \<and> i < int (length xs) then Inr (xs ! nat i)
      else if i < 0 \<and> - int (length xs) \<le> i then Inr (xs ! nat (int (length xs) + i))
      else Inl IndexError)"

text \<open>\<open>xs[:k]\<close>: a negative \<open>k\<close> counts from the end.\<close>

definition py_take :: "int \<Rightarrow> 'a list \<Rightarrow> 'a list" where
  "py_take k xs = (if 0 \<le> k then take (nat k) xs else take (nat (int (length xs) + k)) xs)"

text \<open>\<open>xs.index(x)\<close>: the first position of \<open>x\<close>, or a \<open>ValueError\<close>.\<close>

fun list_index :: "'a list \<Rightarrow> 'a \<Rightarrow> py_error + nat" where
  "list_index [] x = Inl (ValueError ''not in list'')"
| "list_index (y # ys) x =
     (if y = x then Inr 0
      else (case list_index ys x of Inl e \<Rightarrow> Inl e | Inr n \<Rightarrow> Inr (Suc n)))"


section \<open>Lexical index (BM25Preprocessor)\<close>

text \<open>
  The object state. \<open>df\<close>, \<open>postings\<close> and \<open>idf\<close> are dictionaries keyed by term; the inner
  dictionary \<open>postings[term]\<close> keeps its insertion order, which \<open>score_subset\<close> iterates.
  The field \<open>normalize\<close> stands for the method of that name: it is composed of
  \<open>unicodedata.normalize\<close>, \<open>str.lower\<close> and \<open>re.sub\<close> only, which are library routines, so
  the model takes it as given. Python floats are modelled as real numbers.
\<close>

record bm25 =
  normalize :: "string \<Rightarrow> string"
  k1 :: real
  b :: real
  raw_chunks :: "string list"
  normalised_chunks :: "string list"
  N :: nat
  avgdl :: real
  doc_len :: "nat list"
  df :: "string \<rightharpoonup> nat"
  postings :: "string \<rightharpoonup> (nat \<times> nat) list"
  idf :: "string \<rightharpoonup> real"

text \<open>\<open>BM25Preprocessor.__init__\<close>\<close>

definition bm25_init :: "(string \<Rightarrow> string) \<Rightarrow> real \<Rightarrow> real \<Rightarrow> bm25" where
  "bm25_init nrm k1v bv =
     \<lparr>normalize = nrm, k1 = k1v, b = bv, raw_chunks = [], normalised_chunks = [], N = 0,
      avgdl = 0, doc_len = [], df = Map.empty, postings = Map.empty, idf = Map.empty\<rparr>"

text \<open>The loop over the entries of one JSON file in \<open>load_and_prepare\<close>.\<close>

fun load_entries :: "entry list \<Rightarrow> bm25 \<Rightarrow> bm25" where
  "load_entries [] s = s"
| "load_entries (e # es) s =
     (let chunk = flatten_content e
      in load_entries es
           (if chunk \<noteq> []
            then s\<lparr>raw_chunks := raw_chunks s @ [chunk],
                   normalised_chunks := normalised_chunks s @ [normalize s chunk]\<rparr>
            else s))"

text \<open>The loop over the JSON files, given as their contents in the sorted order of names.\<close>

fun load_files :: "entry list list \<Rightarrow> bm25 \<Rightarrow> bm25" where
  "load_files [] s = s"
| "load_files (data # files) s = load_files files (load_entries data s)"

text \<open>\<open>for tok in tokens: tf_counts[tok] += 1\<close>\<close>

fun count_tokens :: "string list \<Rightarrow> (string \<times> nat) list \<Rightarrow> (string \<times> nat) list" where
  "count_tokens [] tf_counts = tf_counts"
| "count_tokens (tok # toks) tf_counts =
     count_tokens toks (dict_set tok (dict_get tf_counts tok 0 + 1) tf_counts)"

text \<open>\<open>for tok, freq in tf_counts.items(): df[tok] += 1; postings[tok][idx] = freq\<close>\<close>

fun update_index :: "(string \<times> nat) list \<Rightarrow> nat \<Rightarrow> bm25 \<Rightarrow> bm25" where
  "update_index [] idx s = s"
| "update_index ((tok, freq) # rest) idx s =
     update_index rest idx
       (s\<lparr>df := (df s)(tok \<mapsto> (case df s tok of None \<Rightarrow> 0 | Some n \<Rightarrow> n) + 1),
          postings := (postings s)(tok \<mapsto>
             dict_set idx freq (case postings s tok of None \<Rightarrow> [] | Some ps \<Rightarrow> ps))\<rparr>)"

text \<open>
  \<open>for idx, doc in enumerate(normalised_chunks)\<close>: the loop carries the local \<open>total_len\<close>
  beside the object state.
\<close>

fun index_docs :: "string list \<Rightarrow> nat \<Rightarrow> nat \<Rightarrow> bm25 \<Rightarrow> nat \<times> bm25" where
  "index_docs [] idx total_len s = (total_len, s)"
| "index_docs (doc # docs) idx total_len s =
     (let tokens = split doc;
          dl = length tokens;
          s1 = s\<lparr>doc_len := doc_len s @ [dl]\<rparr>;
          tf_counts = count_tokens tokens []
      in index_docs docs (idx + 1) (total_len + dl) (update_index tf_counts idx s1))"

text \<open>The value stored in \<open>idf[tok]\<close> for a term of document frequency \<open>d\<close>.\<close>

definition idf_value :: "nat \<Rightarrow> nat \<Rightarrow> real" where
  "idf_value n d = ln ((real n - real d + 0.5) / (real d + 0.5) + 1)"

text \<open>\<open>BM25Preprocessor.load_and_prepare\<close>\<close>

definition load_and_prepare :: "entry list list \<Rightarrow> bm25 \<Rightarrow> bm25" where
  "load_and_prepare files s0 =
     (let s1 = load_files files s0;
          s2 = s1\<lparr>N := length (normalised_chunks s1)\<rparr>;
          r = index_docs (normalised_chunks s2) 0 0 s2;
          total_len = fst r;
          s3 = snd r;
          s4 = s3\<lparr>avgdl := (if N s3 \<noteq> 0 then real total_len / real (N s3) else 0)\<rparr>
      in s4\<lparr>idf := (\<lambda>tok. case df s4 tok of None \<Rightarrow> idf s4 tok
                                | Some d \<Rightarrow> Some (idf_value (N s4) d))\<rparr>)"

text \<open>
  One term of the BM25 sum, as \<open>score_subset\<close> computes it:
  \<open>idf * freq * (k1 + 1) / (freq + k1 * (1 - b + b * dl / avgdl))\<close>.
\<close>

definition bm25_denom :: "real \<Rightarrow> real \<Rightarrow> nat \<Rightarrow> nat \<Rightarrow> real \<Rightarrow> real" where
  "bm25_denom k1v bv freq dl avg = real freq + k1v * (1 - bv + bv * real dl / avg)"

definition bm25_term :: "real \<Rightarrow> real \<Rightarrow> real \<Rightarrow> nat \<Rightarrow> nat \<Rightarrow> real \<Rightarrow> real" where
  "bm25_term k1v bv idfv freq dl avg = idfv * real freq * (k1v + 1) / bm25_denom k1v bv freq dl avg"

text \<open>
  The inner loop of \<open>score_subset\<close> over \<open>postings[tok].items()\<close>. Reading \<open>doc_len\<close> out of
  range and dividing by zero raise.
\<close>

fun score_postings ::
  "bm25 \<Rightarrow> real \<Rightarrow> nat list \<Rightarrow> (nat \<times> nat) list \<Rightarrow> (nat \<times> real) list
     \<Rightarrow> py_error + (nat \<times> real) list" where
  "score_postings s idfv candidate_ids [] scores = Inr scores"
| "score_postings s idfv candidate_ids ((doc_id, freq) # rest) scores =
     (if doc_id \<notin> set candidate_ids then score_postings s idfv candidate_ids rest scores
      else if length (doc_len s) \<le> doc_id then Inl IndexError
      else if avgdl s = 0 then Inl ZeroDivisionError
      else if bm25_denom (k1 s) (b s) freq (doc_len s ! doc_id) (avgdl s) = 0
      then Inl ZeroDivisionError
      else score_postings s idfv candidate_ids rest
             (dict_set doc_id
                (dict_get scores doc_id 0
                   + bm25_term (k1 s) (b s) idfv freq (doc_len s ! doc_id) (avgdl s))
                scores))"

text \<open>The outer loop of \<open>score_subset\<close> over the query tokens.\<close>

fun score_tokens ::
  "bm25 \<Rightarrow> nat list \<Rightarrow> string list \<Rightarrow> (nat \<times> real) list \<Rightarrow> py_error + (nat \<times> real) list" where
  "score_tokens s candidate_ids [] scores = Inr scores"
| "score_tokens s candidate_ids (tok # toks) scores =
     (case postings s tok of
        None \<Rightarrow> score_tokens s candidate_ids toks scores
      | Some ps \<Rightarrow>
          (case score_postings s (case idf s tok of None \<Rightarrow> 0 | Some v \<Rightarrow> v) candidate_ids ps scores of
             Inl e \<Rightarrow> Inl e
           | Inr scores' \<Rightarrow> score_tokens s candidate_ids toks scores'))"

text \<open>
  \<open>sorted(scores.items(), key=lambda x: x[1], reverse=True)\<close>: Python's sort is stable, also
  with \<open>reverse=True\<close>, so it is the stable sort by the negated score.
\<close>

definition ranked :: "(nat \<times> real) list \<Rightarrow> (nat \<times> real) list" where
  "ranked scores = sort_key (\<lambda>x. - snd x) scores"

text \<open>\<open>BM25Preprocessor.score_subset\<close>\<close>

definition score_subset ::
  "bm25 \<Rightarrow> string \<Rightarrow> nat list \<Rightarrow> int \<Rightarrow> py_error + (nat \<times> real) list" where
  "score_subset s query candidate_ids top_k =
     (let norm_q = normalize s query;
          q_tokens = split norm_q
      in case score_tokens s candidate_ids q_tokens [] of
           Inl e \<Rightarrow> Inl e
         | Inr scores \<Rightarrow> Inr (py_take top_k (ranked scores)))"


text \<open>
  The order in which the loops of \<open>score_subset\<close> meet the chunk indices they score: per
  query token with a postings entry, the candidates among that entry's keys.
\<close>

definition scored_ids :: "bm25 \<Rightarrow> nat list \<Rightarrow> string list \<Rightarrow> nat list" where
  "scored_ids s candidate_ids toks =
     concat (map (\<lambda>tok. case postings s tok of
                            None \<Rightarrow> []
                          | Some ps \<Rightarrow> filter (\<lambda>d. d \<in> set candidate_ids) (map fst ps)) toks)"

text \<open>The elements of a sequence in the order of their first occurrence, after \<open>acc\<close>.\<close>

fun first_seen :: "'a list \<Rightarrow> 'a list \<Rightarrow> 'a list" where
  "first_seen acc [] = acc"
| "first_seen acc (x # xs) = first_seen (if x \<in> set acc then acc else acc @ [x]) xs"

text \<open>
  The contribution of one query token to the score of chunk \<open>d\<close>, in the words of the
  specification: nothing when the token has no postings entry or the entry lacks \<open>d\<close>, and
  \<open>idf[term] * tf * (k1 + 1) / (tf + k1 * (1 - b + b * doc_len / avg_doc_len))\<close> otherwise.
\<close>

definition contribution :: "bm25 \<Rightarrow> string \<Rightarrow> nat \<Rightarrow> real" where
  "contribution s tok d =
     (case postings s tok of
        None \<Rightarrow> 0
      | Some ps \<Rightarrow>
          (case map_of ps d of
             None \<Rightarrow> 0
           | Some tf \<Rightarrow>
               (case idf s tok of None \<Rightarrow> 0 | Some v \<Rightarrow> v) * real tf * (k1 s + 1)
                 / (real tf + k1 s * (1 - b s + b s * real (doc_len s ! d) / avgdl s))))"


section \<open>Semantic index (LegalKnowledgeIndexer)\<close>

text \<open>
  A component of an embedding: a finite number, an infinity or a NaN. Finite values are
  real numbers.
\<close>

datatype npfloat = Fin real | PInf | NInf | NaN

fun isnan :: "npfloat \<Rightarrow> bool" where
  "isnan NaN = True"
| "isnan _ = False"

fun isinf :: "npfloat \<Rightarrow> bool" where
  "isinf PInf = True"
| "isinf NInf = True"
| "isinf _ = False"

fun fin_val :: "npfloat \<Rightarrow> real" where
  "fin_val (Fin x) = x"
| "fin_val _ = 0"

text \<open>
  The object state. The field \<open>model\<close> stands for
  \<open>self.model.encode(texts, convert_to_numpy=True, normalize_embeddings=True)\<close>, which returns
  one row per text, and the field \<open>index\<close> for \<open>self.index.search(q_emb, top_k)\<close>, which
  returns the rows \<open>D[0]\<close> and \<open>I[0]\<close> of the single query: both are library objects.
\<close>

record indexer =
  model :: "string list \<Rightarrow> npfloat list list"
  index :: "npfloat list list \<Rightarrow> int \<Rightarrow> real list \<times> int list"
  ids :: "string list"
  all_chunks :: "string list"

text \<open>
  One entry of \<open>np.linalg.norm(embs, axis=1)\<close>: the square root of the sum of squares; a NaN
  component makes it NaN, and otherwise an infinite component makes it infinite.
\<close>

definition row_norm :: "npfloat list \<Rightarrow> npfloat" where
  "row_norm row =
     (if list_ex isnan row then NaN
      else if list_ex isinf row then PInf
      else Fin (sqrt (sum_list (map (\<lambda>x. fin_val x * fin_val x) row))))"

text \<open>
  \<open>np.allclose(a, b, rtol, atol)\<close> for a finite \<open>b\<close>: every entry \<open>x\<close> of \<open>a\<close> is finite and
  satisfies \<open>|x - b| \<le> atol + rtol * |b|\<close>. The default of \<open>rtol\<close> is \<open>1e-05\<close>.
\<close>

definition allclose :: "npfloat list \<Rightarrow> real \<Rightarrow> real \<Rightarrow> real \<Rightarrow> bool" where
  "allclose a bv rtol atol =
     list_all (\<lambda>x. case x of Fin v \<Rightarrow> \<bar>v - bv\<bar> \<le> atol + rtol * \<bar>bv\<bar> | _ \<Rightarrow> False) a"

text \<open>
  \<open>LegalKnowledgeIndexer.embed\<close>. The call \<open>np.allclose(norms, 1.0, atol=1e-6)\<close> leaves
  \<open>rtol\<close> at its default. The assertion on \<open>embs.ndim\<close> holds by the type of \<open>model\<close>.
\<close>

definition embed :: "indexer \<Rightarrow> string list \<Rightarrow> py_error + npfloat list list" where
  "embed sx texts =
     (let embs = model sx texts;
          norms = map row_norm embs
      in if \<not> allclose norms 1 0.00001 0.000001
         then Inl (ValueError ''Some embeddings deviate from unit norm'')
         else if list_ex (list_ex isnan) embs \<or> list_ex (list_ex isinf) embs
         then Inl (ValueError ''Invalid values in embeddings'')
         else Inr embs)"

text \<open>\<open>[(float(score), self.ids[idx]) for score, idx in zip(D[0], I[0])]\<close>\<close>

fun lookup_hits :: "string list \<Rightarrow> (real \<times> int) list \<Rightarrow> py_error + (real \<times> string) list" where
  "lookup_hits idl [] = Inr []"
| "lookup_hits idl ((score, idx) # rest) =
     (case py_index idl idx of
        Inl e \<Rightarrow> Inl e
      | Inr chunk_id \<Rightarrow>
          (case lookup_hits idl rest of
             Inl e \<Rightarrow> Inl e
           | Inr hits \<Rightarrow> Inr ((score, chunk_id) # hits)))"

text \<open>\<open>LegalKnowledgeIndexer.query\<close>\<close>

definition query :: "indexer \<Rightarrow> string \<Rightarrow> int \<Rightarrow> py_error + (real \<times> string) list" where
  "query sx text top_k =
     (case embed sx [text] of
        Inl e \<Rightarrow> Inl e
      | Inr q_emb \<Rightarrow>
          (let r = index sx q_emb top_k
           in lookup_hits (ids sx) (zip (fst r) (snd r))))"


section \<open>Hybrid retriever (HybridRetrieval)\<close>

record hybrid =
  hquery :: string
  sb :: indexer
  bm25 :: bm25

text \<open>\<open>[self.sb.ids.index(chunk_id) for _, chunk_id in sem_hits]\<close>\<close>

fun candidate_int_ids :: "string list \<Rightarrow> (real \<times> string) list \<Rightarrow> py_error + nat list" where
  "candidate_int_ids idl [] = Inr []"
| "candidate_int_ids idl ((score, chunk_id) # rest) =
     (case list_index idl chunk_id of
        Inl e \<Rightarrow> Inl e
      | Inr n \<Rightarrow>
          (case candidate_int_ids idl rest of
             Inl e \<Rightarrow> Inl e
           | Inr ns \<Rightarrow> Inr (n # ns)))"

text \<open>
  The body of the loop over \<open>bm25_hits\<close> without the lookup: the leading lines that start
  with \<open>Section:\<close> are popped, the rest is joined and stripped.
\<close>

definition clean_chunk :: "string \<Rightarrow> string" where
  "clean_chunk chunk =
     strip (join_nl (dropWhile (\<lambda>l. startswith l ''Section:'') (splitlines chunk)))"

text \<open>The loop over \<open>bm25_hits\<close>, with \<open>result_chunks\<close> as accumulator.\<close>

fun clean_hits :: "bm25 \<Rightarrow> (nat \<times> real) list \<Rightarrow> string list \<Rightarrow> py_error + string list" where
  "clean_hits s [] result_chunks = Inr result_chunks"
| "clean_hits s ((doc_id, score) # rest) result_chunks =
     (if length (raw_chunks s) \<le> doc_id then Inl IndexError
      else clean_hits s rest (result_chunks @ [clean_chunk (raw_chunks s ! doc_id)]))"

text \<open>\<open>HybridRetrieval.run\<close>\<close>

definition run :: "hybrid \<Rightarrow> int \<Rightarrow> int \<Rightarrow> py_error + string list" where
  "run h top_k_sem top_k_bm25 =
     (case query (sb h) (hquery h) top_k_sem of
        Inl e \<Rightarrow> Inl e
      | Inr sem_hits \<Rightarrow>
          (case candidate_int_ids (ids (sb h)) sem_hits of
             Inl e \<Rightarrow> Inl e
           | Inr cands \<Rightarrow>
               (case score_subset (bm25 h) (hquery h) cands top_k_bm25 of
                  Inl e \<Rightarrow> Inl e
                | Inr bm25_hits \<Rightarrow> clean_hits (bm25 h) bm25_hits [])))"


section \<open>Invariants of the built lexical index\<close>

text \<open>
  After \<open>n\<close> chunks have been indexed: every posting refers to an indexed chunk, its
  frequency is at least one and at most the length of that chunk, the keys of a postings
  entry are distinct, and \<open>df\<close> counts the postings of each term.
\<close>

definition postings_ok :: "nat \<Rightarrow> bm25 \<Rightarrow> bool" where
  "postings_ok n s \<longleftrightarrow>
     length (doc_len s) = n \<and>
     (\<forall>tok ps. postings s tok = Some ps \<longrightarrow>
        distinct (map fst ps) \<and>
        (\<forall>p \<in> set ps. fst p < n \<and> 1 \<le> snd p \<and> snd p \<le> doc_len s ! fst p)) \<and>
     (\<forall>tok. df s tok = map_option length (postings s tok))"

definition built_ok :: "bm25 \<Rightarrow> bool" where
  "built_ok s \<longleftrightarrow>
     postings_ok (N s) s \<and>
     avgdl s = (if N s = 0 then 0 else real (sum_list (doc_len s)) / real (N s)) \<and>
     (\<forall>tok. idf s tok = map_option (idf_value (N s)) (df s tok)) \<and>
     length (raw_chunks s) = N s"


section \<open>Example corpora\<close>

text \<open>
  A corpus of one JSON file with two chunk records, each holding the single block
  \<open>pay\<close>, indexed with the default constants. On such text \<open>normalize\<close> is the identity.
\<close>

definition two_pay :: bm25 where
  "two_pay = load_and_prepare
     [[\<lparr>Section = [], Subsection = [], Content = [Block ''pay'' []]\<rparr>,
       \<lparr>Section = [], Subsection = [], Content = [Block ''pay'' []]\<rparr>]]
     (bm25_init (\<lambda>x. x) 1.5 0.75)"


text \<open>The index built from a corpus without chunk records.\<close>

definition no_chunks :: bm25 where
  "no_chunks = load_and_prepare [] (bm25_init (\<lambda>x. x) 1.5 0.75)"


text \<open>
  A semantic index over zero chunks: the list of chunk IDs is empty. The inner-product
  search over no vectors fills each of the \<open>top_k\<close> result slots with the label \<open>-1\<close> and
  the lowest float32 as distance. The encoder returns a unit vector.
\<close>

definition empty_indexer :: indexer where
  "empty_indexer =
     \<lparr>model = (\<lambda>texts. [[Fin 1]]),
      index = (\<lambda>q_emb top_k. (replicate (nat top_k) (- 340282346638528859811704183484516925440),
                               replicate (nat top_k) (- 1))),
      ids = [], all_chunks = []\<rparr>"

text \<open>
  A retriever whose semantic index was persisted for three chunks while the lexical index
  is built from the two-chunk corpus: the hit \<open>a.json_chunk_2\<close> has position 2 in the ID
  list and no entry in the lexical index.
\<close>

definition stale_hybrid :: hybrid where
  "stale_hybrid =
     \<lparr>hquery = ''pay'',
      sb = \<lparr>model = (\<lambda>texts. [[Fin 1]]),
            index = (\<lambda>q_emb top_k. (take (nat top_k) [1, 1, 1], take (nat top_k) [2, 1, 0])),
            ids = [''a.json_chunk_0'', ''a.json_chunk_1'', ''a.json_chunk_2''],
            all_chunks = [''pay'', ''pay'', ''pay'']\<rparr>,
      bm25 = two_pay\<rparr>"

text \<open>
  A corpus whose first record has a section heading and no content. Its flattened text is
  \<open>Section: Pay.\<close>, which \<open>normalize\<close> turns into \<open>section pay\<close>; the other strings
  \<open>normalize\<close> is applied to are left as they are. The semantic flattener emits no headings,
  so the semantic index holds only the second record, as its chunk 0.
\<close>

definition heading_only :: bm25 where
  "heading_only = load_and_prepare
     [[\<lparr>Section = ''Pay'', Subsection = [], Content = []\<rparr>,
       \<lparr>Section = [], Subsection = [], Content = [Block ''pay'' []]\<rparr>]]
     (bm25_init (\<lambda>x. if x = ''Section: Pay.'' then ''section pay'' else x) 1.5 0.75)"

definition heading_hybrid :: hybrid where
  "heading_hybrid =
     \<lparr>hquery = ''pay'',
      sb = \<lparr>model = (\<lambda>texts. [[Fin 1]]),
            index = (\<lambda>q_emb top_k. (take (nat top_k) [1], take (nat top_k) [0])),
            ids = [''a.json_chunk_0''],
            all_chunks = [''pay'']\<rparr>,
      bm25 = heading_only\<rparr>"

text \<open>
  A corpus whose record starts with a blank list item followed by an item that reads
  \<open>Section: pay\<close>: the flattened text is an empty line followed by that line.
\<close>

definition blank_item :: bm25 where
  "blank_item = load_and_prepare
     [[\<lparr>Section = [], Subsection = [],
        Content = [Block [] [Item [] [], Item ''Section: pay'' []]]\<rparr>]]
     (bm25_init (\<lambda>x. if x = CHR 0x0A # ''Section: pay'' then ''section pay'' else x) 1.5 0.75)"

definition blank_item_hybrid :: hybrid where
  "blank_item_hybrid =
     \<lparr>hquery = ''pay'',
      sb = \<lparr>model = (\<lambda>texts. [[Fin 1]]),
            index = (\<lambda>q_emb top_k. (take (nat top_k) [1], take (nat top_k) [0])),
            ids = [''a.json_chunk_0''],
            all_chunks = [CHR 0x0A # CHR 0x0A # ''Section: pay'']\<rparr>,
      bm25 = blank_item\<rparr>"

section \<open>Dictionaries\<close>

lemma map_of_dict_set: "map_of (dict_set k v d) = (map_of d)(k \<mapsto> v)"
  by (induction d) (auto simp: fun_eq_iff)

lemma keys_dict_set:
  "map fst (dict_set k v d) = (if k \<in> fst ` set d then map fst d else map fst d @ [k])"
  by (induction d) auto

lemma distinct_dict_set: "distinct (map fst d) \<Longrightarrow> distinct (map fst (dict_set k v d))"
  by (simp add: keys_dict_set)

lemma dict_set_fresh: "k \<notin> fst ` set d \<Longrightarrow> dict_set k v d = d @ [(k, v)]"
  by (induction d) auto

lemma dict_get_dict_set:
  "dict_get (dict_set k v d) k' dflt = (if k' = k then v else dict_get d k' dflt)"
  by (simp add: dict_get_def map_of_dict_set)


lemma count_tokens_keys: "distinct (map fst tf) \<Longrightarrow> distinct (map fst (count_tokens toks tf))"
  by (induction toks arbitrary: tf) (auto simp: distinct_dict_set)

lemma count_tokens_map_of:
  "map_of (count_tokens toks tf) t =
     (if count_list toks t = 0 then map_of tf t else Some (dict_get tf t 0 + count_list toks t))"
  by (induction toks arbitrary: tf) (auto simp: map_of_dict_set dict_get_dict_set dict_get_def)

lemma update_index_other [simp]:
  "doc_len (update_index tfc idx s) = doc_len s"
  "k1 (update_index tfc idx s) = k1 s"
  "b (update_index tfc idx s) = b s"
  "N (update_index tfc idx s) = N s"
  "avgdl (update_index tfc idx s) = avgdl s"
  "idf (update_index tfc idx s) = idf s"
  "normalize (update_index tfc idx s) = normalize s"
  "raw_chunks (update_index tfc idx s) = raw_chunks s"
  "normalised_chunks (update_index tfc idx s) = normalised_chunks s"
  by (induction tfc idx s rule: update_index.induct) auto

lemma update_index_postings:
  "distinct (map fst tfc) \<Longrightarrow>
   postings (update_index tfc idx s) tok =
     (case map_of tfc tok of
        None \<Rightarrow> postings s tok
      | Some f \<Rightarrow> Some (dict_set idx f (case postings s tok of None \<Rightarrow> [] | Some ps \<Rightarrow> ps)))"
  by (induction tfc idx s rule: update_index.induct)
     (auto split: option.splits simp: image_iff dest!: map_of_SomeD)

lemma update_index_df:
  "distinct (map fst tfc) \<Longrightarrow>
   df (update_index tfc idx s) tok =
     (case map_of tfc tok of
        None \<Rightarrow> df s tok
      | Some f \<Rightarrow> Some ((case df s tok of None \<Rightarrow> 0 | Some n \<Rightarrow> n) + 1))"
  by (induction tfc idx s rule: update_index.induct)
     (auto split: option.splits simp: image_iff dest!: map_of_SomeD)

lemma count_tokens_entry:
  assumes "(t, f) \<in> set (count_tokens toks [])"
  shows "1 \<le> f \<and> f \<le> length toks"
proof -
  have d: "distinct (map fst (count_tokens toks []))"
    by (rule count_tokens_keys) simp
  with assms have "map_of (count_tokens toks []) t = Some f"
    by simp
  then have "f = count_list toks t \<and> count_list toks t \<noteq> 0"
    by (auto simp: count_tokens_map_of dict_get_def split: if_splits)
  then show ?thesis
    using count_le_length [of toks t] by simp
qed

lemma postings_ok_step:
  assumes ok: "postings_ok n s"
  shows "postings_ok (Suc n)
           (update_index (count_tokens toks []) n (s\<lparr>doc_len := doc_len s @ [length toks]\<rparr>))"
proof -
  let ?tfc = "count_tokens toks []"
  let ?s1 = "s\<lparr>doc_len := doc_len s @ [length toks]\<rparr>"
  let ?s' = "update_index ?tfc n ?s1"
  have d: "distinct (map fst ?tfc)"
    by (rule count_tokens_keys) simp
  have len: "length (doc_len s) = n"
    using ok by (simp add: postings_ok_def)
  have old: "\<And>tok ps p. postings s tok = Some ps \<Longrightarrow> p \<in> set ps \<Longrightarrow>
               fst p < n \<and> 1 \<le> snd p \<and> snd p \<le> doc_len s ! fst p"
    using ok by (auto simp: postings_ok_def)
  have olddist: "\<And>tok ps. postings s tok = Some ps \<Longrightarrow> distinct (map fst ps)"
    using ok by (auto simp: postings_ok_def)
  have olddf: "\<And>tok. df s tok = map_option length (postings s tok)"
    using ok by (auto simp: postings_ok_def)
  have fresh: "\<And>tok ps. postings s tok = Some ps \<Longrightarrow> n \<notin> fst ` set ps"
    using old by fastforce
  have p1: "\<And>tok ps p. postings ?s' tok = Some ps \<Longrightarrow>
      distinct (map fst ps) \<and>
      (\<forall>p \<in> set ps. fst p < Suc n \<and> 1 \<le> snd p \<and> snd p \<le> doc_len ?s' ! fst p)"
  proof -
    fix tok ps
    assume h: "postings ?s' tok = Some ps"
    show "distinct (map fst ps) \<and>
      (\<forall>p \<in> set ps. fst p < Suc n \<and> 1 \<le> snd p \<and> snd p \<le> doc_len ?s' ! fst p)"
    proof (cases "map_of ?tfc tok")
      case None
      with h d have "postings s tok = Some ps"
        by (simp add: update_index_postings)
      then show ?thesis
        using old olddist len by (fastforce simp: nth_append)
    next
      case (Some f)
      then have f: "1 \<le> f \<and> f \<le> length toks"
        using count_tokens_entry [of tok f toks] by (auto dest: map_of_SomeD)
      show ?thesis
      proof (cases "postings s tok")
        case None
        with h d Some have "ps = [(n, f)]"
          by (simp add: update_index_postings)
        then show ?thesis using f len by (auto simp: nth_append)
      next
        case (Some qs)
        with h d \<open>map_of ?tfc tok = Some f\<close> have "ps = dict_set n f qs"
          by (simp add: update_index_postings)
        then have ps: "ps = qs @ [(n, f)]"
          using fresh [OF Some] by (simp add: dict_set_fresh)
        show ?thesis
          using ps old [OF Some] olddist [OF Some] fresh [OF Some] f len
          by (fastforce simp: nth_append)
      qed
    qed
  qed
  have p2: "\<And>tok. df ?s' tok = map_option length (postings ?s' tok)"
  proof -
    fix tok
    show "df ?s' tok = map_option length (postings ?s' tok)"
      using d olddf [of tok] fresh [of tok]
      by (auto simp: update_index_postings update_index_df dict_set_fresh split: option.splits)
  qed
  show ?thesis
    unfolding postings_ok_def using len p1 p2 by simp
qed

lemma load_entries_other [simp]:
  "doc_len (load_entries es s) = doc_len s"
  "k1 (load_entries es s) = k1 s"
  "b (load_entries es s) = b s"
  "N (load_entries es s) = N s"
  "avgdl (load_entries es s) = avgdl s"
  "idf (load_entries es s) = idf s"
  "df (load_entries es s) = df s"
  "postings (load_entries es s) = postings s"
  "normalize (load_entries es s) = normalize s"
  by (induction es s rule: load_entries.induct) (auto simp: Let_def)

lemma load_files_other [simp]:
  "doc_len (load_files fs s) = doc_len s"
  "k1 (load_files fs s) = k1 s"
  "b (load_files fs s) = b s"
  "N (load_files fs s) = N s"
  "avgdl (load_files fs s) = avgdl s"
  "idf (load_files fs s) = idf s"
  "df (load_files fs s) = df s"
  "postings (load_files fs s) = postings s"
  "normalize (load_files fs s) = normalize s"
  by (induction fs s rule: load_files.induct) auto

lemma load_entries_lengths:
  "length (raw_chunks s) = length (normalised_chunks s) \<Longrightarrow>
   length (raw_chunks (load_entries es s)) = length (normalised_chunks (load_entries es s))"
  by (induction es s rule: load_entries.induct) (auto simp: Let_def)

lemma load_files_lengths:
  "length (raw_chunks s) = length (normalised_chunks s) \<Longrightarrow>
   length (raw_chunks (load_files fs s)) = length (normalised_chunks (load_files fs s))"
  by (induction fs s rule: load_files.induct) (auto simp: load_entries_lengths)

lemma index_docs_other [simp]:
  "k1 (snd (index_docs docs idx tot s)) = k1 s"
  "b (snd (index_docs docs idx tot s)) = b s"
  "N (snd (index_docs docs idx tot s)) = N s"
  "avgdl (snd (index_docs docs idx tot s)) = avgdl s"
  "idf (snd (index_docs docs idx tot s)) = idf s"
  "normalize (snd (index_docs docs idx tot s)) = normalize s"
  "raw_chunks (snd (index_docs docs idx tot s)) = raw_chunks s"
  "normalised_chunks (snd (index_docs docs idx tot s)) = normalised_chunks s"
  by (induction docs idx tot s rule: index_docs.induct) (auto simp: Let_def)

lemma index_docs_ok:
  "postings_ok idx s \<Longrightarrow> tot = sum_list (doc_len s) \<Longrightarrow>
   postings_ok (idx + length docs) (snd (index_docs docs idx tot s)) \<and>
   fst (index_docs docs idx tot s) = sum_list (doc_len (snd (index_docs docs idx tot s)))"
proof (induction docs idx tot s rule: index_docs.induct)
  case (1 idx total_len s)
  then show ?case by simp
next
  case (2 doc docs idx total_len s)
  let ?s' = "update_index (count_tokens (split doc) []) idx
               (s\<lparr>doc_len := doc_len s @ [length (split doc)]\<rparr>)"
  have ok: "postings_ok (Suc idx) ?s'"
    using "2.prems"(1) by (rule postings_ok_step)
  have tot: "total_len + length (split doc) = sum_list (doc_len ?s')"
    using "2.prems"(2) by simp
  show ?case
    using "2.IH" [OF refl refl refl refl] ok tot by (simp add: Let_def)
qed

lemma postings_ok_init: "postings_ok 0 (bm25_init nrm kk bb)"
  by (simp add: postings_ok_def bm25_init_def)

lemma postings_ok_fields:
  "doc_len s' = doc_len s \<Longrightarrow> postings s' = postings s \<Longrightarrow> df s' = df s \<Longrightarrow>
   postings_ok n s' = postings_ok n s"
  by (simp add: postings_ok_def)

lemma load_and_prepare_ok: "built_ok (load_and_prepare files (bm25_init nrm kk bb))"
proof -
  let ?s1 = "load_files files (bm25_init nrm kk bb)"
  let ?s2 = "?s1\<lparr>N := length (normalised_chunks ?s1)\<rparr>"
  let ?r = "index_docs (normalised_chunks ?s2) 0 0 ?s2"
  have ok2: "postings_ok 0 ?s2"
    using postings_ok_init [of nrm kk bb]
    by (simp add: postings_ok_fields [of ?s2 "bm25_init nrm kk bb"])
  have "0 = sum_list (doc_len ?s2)"
    by (simp add: bm25_init_def)
  from index_docs_ok [OF ok2 this, of "normalised_chunks ?s2"]
  have ok3: "postings_ok (length (normalised_chunks ?s1)) (snd ?r)"
    and tot: "fst ?r = sum_list (doc_len (snd ?r))"
    by simp_all
  have len: "length (raw_chunks ?s1) = length (normalised_chunks ?s1)"
    by (rule load_files_lengths) (simp add: bm25_init_def)
  have idf0: "idf ?s1 = Map.empty"
    by (simp add: bm25_init_def)
  show ?thesis
    unfolding built_ok_def load_and_prepare_def Let_def
    using ok3 tot len idf0
    by (auto simp: postings_ok_def split: option.splits)
qed

lemma load_and_prepare_params [simp]:
  "k1 (load_and_prepare files s) = k1 s"
  "b (load_and_prepare files s) = b s"
  "normalize (load_and_prepare files s) = normalize s"
  by (simp_all add: load_and_prepare_def Let_def)


section \<open>Scoring a built index\<close>

lemma built_posting_facts:
  assumes "built_ok s" and "postings s tok = Some ps" and "p \<in> set ps"
  shows "fst p < length (doc_len s)" and "fst p < N s" and "1 \<le> snd p"
    and "snd p \<le> doc_len s ! fst p" and "0 < avgdl s"
proof -
  have ok: "postings_ok (N s) s"
    using assms(1) by (simp add: built_ok_def)
  then have len: "length (doc_len s) = N s"
    by (simp add: postings_ok_def)
  from ok assms(2,3) have p: "fst p < N s \<and> 1 \<le> snd p \<and> snd p \<le> doc_len s ! fst p"
    unfolding postings_ok_def by blast
  then show "fst p < length (doc_len s)" "fst p < N s" "1 \<le> snd p" "snd p \<le> doc_len s ! fst p"
    using len by simp_all
  have "doc_len s ! fst p \<in> set (doc_len s)"
    using p len by simp
  then have "doc_len s ! fst p \<le> sum_list (doc_len s)"
    by (simp add: member_le_sum_list)
  then have "0 < sum_list (doc_len s)" and "0 < N s"
    using p by linarith+
  then show "0 < avgdl s"
    using assms(1) by (simp add: built_ok_def)
qed

lemma bm25_denom_pos:
  assumes "0 \<le> kk" and "0 \<le> bb" and "bb \<le> 1" and "1 \<le> f" and "0 < avg"
  shows "0 < bm25_denom kk bb f dl avg"
proof -
  have "0 \<le> bb * real dl / avg"
    using assms by simp
  then have "0 \<le> 1 - bb + bb * real dl / avg"
    using assms by linarith
  then have "0 \<le> kk * (1 - bb + bb * real dl / avg)"
    using assms by simp
  moreover have "0 < real f"
    using assms by simp
  ultimately show ?thesis
    unfolding bm25_denom_def by linarith
qed

lemma score_postings_total:
  assumes "\<forall>p \<in> set ps. fst p < length (doc_len s) \<and> avgdl s \<noteq> 0 \<and>
             bm25_denom (k1 s) (b s) (snd p) (doc_len s ! fst p) (avgdl s) \<noteq> 0"
  shows "\<exists>sc'. score_postings s i c ps sc = Inr sc'"
  using assms by (induction ps arbitrary: sc) auto

lemma score_tokens_total:
  assumes "built_ok s" and "0 \<le> k1 s" and "0 \<le> b s" and "b s \<le> 1"
  shows "\<exists>sc'. score_tokens s c toks sc = Inr sc'"
proof (induction toks arbitrary: sc)
  case Nil
  then show ?case by simp
next
  case (Cons tok toks)
  show ?case
  proof (cases "postings s tok")
    case None
    then show ?thesis using Cons by simp
  next
    case (Some ps)
    have "\<forall>p \<in> set ps. fst p < length (doc_len s) \<and> avgdl s \<noteq> 0 \<and>
             bm25_denom (k1 s) (b s) (snd p) (doc_len s ! fst p) (avgdl s) \<noteq> 0"
    proof
      fix p assume p: "p \<in> set ps"
      note f = built_posting_facts [OF assms(1) Some p]
      have "0 < bm25_denom (k1 s) (b s) (snd p) (doc_len s ! fst p) (avgdl s)"
        using assms(2-4) f(3,5) by (rule bm25_denom_pos)
      then show "fst p < length (doc_len s) \<and> avgdl s \<noteq> 0 \<and>
             bm25_denom (k1 s) (b s) (snd p) (doc_len s ! fst p) (avgdl s) \<noteq> 0"
        using f by simp
    qed
    then obtain sc1 where "score_postings s (case idf s tok of None \<Rightarrow> 0 | Some v \<Rightarrow> v) c ps sc = Inr sc1"
      using score_postings_total by blast
    then show ?thesis
      using Some Cons [of sc1] by simp
  qed
qed

lemma first_seen_append: "first_seen acc (xs @ ys) = first_seen (first_seen acc xs) ys"
  by (induction xs arbitrary: acc) auto

lemma distinct_first_seen: "distinct acc \<Longrightarrow> distinct (first_seen acc xs)"
  by (induction xs arbitrary: acc) auto

lemma set_first_seen: "set (first_seen acc xs) = set acc \<union> set xs"
  by (induction xs arbitrary: acc) auto

lemma score_postings_keys:
  "score_postings s i c ps sc = Inr sc' \<Longrightarrow>
   map fst sc' = first_seen (map fst sc) (filter (\<lambda>d. d \<in> set c) (map fst ps))"
  by (induction ps arbitrary: sc) (force simp: keys_dict_set split: if_splits)+

lemma score_tokens_keys:
  "score_tokens s c toks sc = Inr sc' \<Longrightarrow>
   map fst sc' = first_seen (map fst sc) (scored_ids s c toks)"
proof (induction toks arbitrary: sc)
  case Nil
  then show ?case by (simp add: scored_ids_def)
next
  case (Cons tok toks)
  show ?case
  proof (cases "postings s tok")
    case None
    then show ?thesis using Cons by (simp add: scored_ids_def)
  next
    case (Some ps)
    with Cons.prems obtain sc1 where
      1: "score_postings s (case idf s tok of None \<Rightarrow> 0 | Some v \<Rightarrow> v) c ps sc = Inr sc1"
      and 2: "score_tokens s c toks sc1 = Inr sc'"
      by (auto split: sum.splits)
    show ?thesis
      using Cons.IH [OF 2] score_postings_keys [OF 1] Some
      by (simp add: scored_ids_def first_seen_append)
  qed
qed

lemma score_postings_value:
  assumes "score_postings s i c ps sc = Inr sc'" and "distinct (map fst ps)"
  shows "dict_get sc' d 0 = dict_get sc d 0 +
           (if d \<in> set c
            then (case map_of ps d of
                    None \<Rightarrow> 0
                  | Some f \<Rightarrow> bm25_term (k1 s) (b s) i f (doc_len s ! d) (avgdl s))
            else 0)"
  using assms
proof (induction ps arbitrary: sc)
  case Nil
  then show ?case by simp
next
  case (Cons p ps)
  obtain d0 f0 where p: "p = (d0, f0)" by (cases p)
  have none: "map_of ps d0 = None"
    using Cons.prems(2) p by (simp add: map_of_eq_None_iff)
  show ?case
  proof (cases "d0 \<in> set c")
    case False
    with Cons p show ?thesis by auto
  next
    case True
    let ?sc1 = "dict_set d0 (dict_get sc d0 0 + bm25_term (k1 s) (b s) i f0 (doc_len s ! d0) (avgdl s)) sc"
    from Cons.prems(1) p True have run: "score_postings s i c ps ?sc1 = Inr sc'"
      by (auto split: if_splits)
    have "dict_get sc' d 0 = dict_get ?sc1 d 0 +
           (if d \<in> set c
            then (case map_of ps d of
                    None \<Rightarrow> 0
                  | Some f \<Rightarrow> bm25_term (k1 s) (b s) i f (doc_len s ! d) (avgdl s))
            else 0)"
      using Cons.IH [OF run] Cons.prems(2) by simp
    then show ?thesis
      using p True none by (auto simp: dict_get_dict_set)
  qed
qed

lemma contribution_term:
  "postings s tok = Some ps \<Longrightarrow>
   contribution s tok d =
     (case map_of ps d of
        None \<Rightarrow> 0
      | Some f \<Rightarrow> bm25_term (k1 s) (b s) (case idf s tok of None \<Rightarrow> 0 | Some v \<Rightarrow> v) f
                   (doc_len s ! d) (avgdl s))"
  by (simp add: contribution_def bm25_term_def bm25_denom_def split: option.splits)

lemma score_tokens_value:
  assumes "score_tokens s c toks sc = Inr sc'"
    and "\<forall>tok ps. postings s tok = Some ps \<longrightarrow> distinct (map fst ps)"
    and "d \<in> set c"
  shows "dict_get sc' d 0 = dict_get sc d 0 + (\<Sum>tok\<leftarrow>toks. contribution s tok d)"
  using assms(1)
proof (induction toks arbitrary: sc)
  case Nil
  then show ?case by simp
next
  case (Cons tok toks)
  show ?case
  proof (cases "postings s tok")
    case None
    then show ?thesis using Cons by (simp add: contribution_def)
  next
    case (Some ps)
    with Cons.prems obtain sc1 where
      1: "score_postings s (case idf s tok of None \<Rightarrow> 0 | Some v \<Rightarrow> v) c ps sc = Inr sc1"
      and 2: "score_tokens s c toks sc1 = Inr sc'"
      by (auto split: sum.splits)
    have dist: "distinct (map fst ps)"
      using assms(2) Some by blast
    show ?thesis
      using Cons.IH [OF 2] score_postings_value [OF 1 dist, of d] assms(3)
      by (simp add: contribution_term [OF Some])
  qed
qed

lemma token_ids:
  "d \<in> set (case postings s tok of
               None \<Rightarrow> []
             | Some ps \<Rightarrow> filter (\<lambda>d. d \<in> set c) (map fst ps)) \<longleftrightarrow>
   d \<in> set c \<and> (\<exists>ps f. postings s tok = Some ps \<and> (d, f) \<in> set ps)"
proof (cases "postings s tok")
  case None
  then show ?thesis by simp
next
  case (Some ps)
  have "d \<in> fst ` set ps \<longleftrightarrow> (\<exists>f. (d, f) \<in> set ps)"
    by force
  with Some show ?thesis by auto
qed

lemma set_scored_ids:
  "set (scored_ids s c toks) =
     {d \<in> set c. \<exists>tok \<in> set toks. \<exists>ps f. postings s tok = Some ps \<and> (d, f) \<in> set ps}"
proof -
  have "\<And>d. d \<in> set (scored_ids s c toks) \<longleftrightarrow>
      d \<in> set c \<and> (\<exists>tok \<in> set toks. \<exists>ps f. postings s tok = Some ps \<and> (d, f) \<in> set ps)"
    unfolding scored_ids_def set_concat set_map UN_iff bex_simps token_ids by blast
  then show ?thesis by blast
qed

lemma dict_get_entry:
  "distinct (map fst sc) \<Longrightarrow> (d, v) \<in> set sc \<Longrightarrow> dict_get sc d dflt = v"
  by (simp add: dict_get_def)

lemma built_distinct:
  "built_ok s \<Longrightarrow> \<forall>tok ps. postings s tok = Some ps \<longrightarrow> distinct (map fst ps)"
  unfolding built_ok_def postings_ok_def by blast

lemma final_scores:
  assumes "score_tokens s c toks [] = Inr scores"
    and "\<forall>tok ps. postings s tok = Some ps \<longrightarrow> distinct (map fst ps)"
  shows "distinct (map fst scores)"
    and "set (map fst scores) = set (scored_ids s c toks)"
    and "(d, v) \<in> set scores \<Longrightarrow> d \<in> set c \<and> v = (\<Sum>tok\<leftarrow>toks. contribution s tok d)"
proof -
  have keys: "map fst scores = first_seen [] (scored_ids s c toks)"
    using score_tokens_keys [OF assms(1)] by simp
  show dist: "distinct (map fst scores)"
    unfolding keys by (rule distinct_first_seen) simp
  show ks: "set (map fst scores) = set (scored_ids s c toks)"
    unfolding keys by (simp add: set_first_seen)
  assume dv: "(d, v) \<in> set scores"
  then have "d \<in> set (map fst scores)"
    by force
  then have dc: "d \<in> set c"
    unfolding ks set_scored_ids by simp
  have "dict_get scores d 0 = v"
    using dist dv by (rule dict_get_entry)
  then show "d \<in> set c \<and> v = (\<Sum>tok\<leftarrow>toks. contribution s tok d)"
    using score_tokens_value [OF assms(1,2) dc] dc by (simp add: dict_get_def)
qed

lemma set_py_take: "set (py_take k xs) \<subseteq> set xs"
  by (auto simp: py_take_def dest: in_set_takeD)

lemma set_ranked: "set (ranked sc) = set sc"
  by (simp add: ranked_def)

lemma score_tokens_append:
  "score_tokens s c (xs @ ys) sc =
     (case score_tokens s c xs sc of Inl e \<Rightarrow> Inl e | Inr sc1 \<Rightarrow> score_tokens s c ys sc1)"
  by (induction xs arbitrary: sc) (auto split: option.splits sum.splits)

lemma score_tokens_no_postings:
  assumes "\<forall>tok ps. postings s tok = Some ps \<longrightarrow> ps = []"
  shows "score_tokens s c toks sc = Inr sc"
proof (induction toks)
  case Nil
  then show ?case by simp
next
  case (Cons tok toks)
  show ?case
  proof (cases "postings s tok")
    case None
    then show ?thesis using Cons by simp
  next
    case (Some ps)
    then have "ps = []" using assms by blast
    then show ?thesis using Some Cons by simp
  qed
qed

lemma built_avgdl_zero:
  assumes "built_ok s" and "avgdl s = 0"
  shows "\<forall>tok ps. postings s tok = Some ps \<longrightarrow> ps = []"
proof (intro allI impI)
  fix tok ps assume ps: "postings s tok = Some ps"
  show "ps = []"
  proof (cases ps)
    case Nil
    then show ?thesis .
  next
    case (Cons p rest)
    then have "p \<in> set ps" by simp
    from built_posting_facts(5) [OF assms(1) ps this] assms(2) show ?thesis by simp
  qed
qed

lemma built_df_le:
  assumes "built_ok s" and "df s tok = Some d"
  shows "d \<le> N s"
proof -
  have ok: "postings_ok (N s) s"
    using assms(1) by (simp add: built_ok_def)
  then have "df s tok = map_option length (postings s tok)"
    by (simp add: postings_ok_def)
  with assms(2) obtain ps where ps: "postings s tok = Some ps" and d: "d = length ps"
    by (cases "postings s tok") auto
  have dist: "distinct (map fst ps)"
    using built_distinct [OF assms(1)] ps by blast
  have "set (map fst ps) \<subseteq> {..<N s}"
    using built_posting_facts(2) [OF assms(1) ps] by auto
  then have "card (set (map fst ps)) \<le> card {..<N s}"
    by (intro card_mono) simp_all
  then show ?thesis
    using distinct_card [OF dist] d by simp
qed

lemma idf_value_pos: "d \<le> n \<Longrightarrow> 0 < idf_value n d"
proof -
  assume "d \<le> n"
  then have "0 < (real n - real d + 0.5) / (real d + 0.5)"
    by (intro divide_pos_pos) simp_all
  then show ?thesis
    unfolding idf_value_def by (intro ln_gt_zero) simp
qed

lemma built_idf_pos:
  assumes "built_ok s" and "idf s tok = Some v"
  shows "0 < v"
proof -
  have "idf s tok = map_option (idf_value (N s)) (df s tok)"
    using assms(1) by (simp add: built_ok_def)
  with assms(2) obtain d where d: "df s tok = Some d" and v: "v = idf_value (N s) d"
    by (cases "df s tok") auto
  show ?thesis
    unfolding v using built_df_le [OF assms(1) d] by (rule idf_value_pos)
qed

lemma built_idf_postings:
  assumes "built_ok s" and "postings s tok = Some ps"
  shows "idf s tok = Some (idf_value (N s) (length ps))"
  using assms by (simp add: built_ok_def postings_ok_def)

lemma set_dict_set: "set (dict_set k v d) \<subseteq> insert (k, v) (set d)"
  by (induction d) auto

lemma dict_get_nonneg:
  "\<forall>p \<in> set sc. 0 < snd p \<Longrightarrow> (0::real) \<le> dict_get sc d 0"
  by (auto simp: dict_get_def split: option.splits dest!: map_of_SomeD)

lemma score_postings_pos:
  assumes "score_postings s i c ps sc = Inr sc'"
    and "\<forall>p \<in> set sc. 0 < snd p"
    and "\<forall>p \<in> set ps. 0 < bm25_term (k1 s) (b s) i (snd p) (doc_len s ! fst p) (avgdl s)"
  shows "\<forall>p \<in> set sc'. 0 < snd p"
  using assms
proof (induction ps arbitrary: sc)
  case Nil
  then show ?case by simp
next
  case (Cons p ps)
  obtain d0 f0 where p: "p = (d0, f0)" by (cases p)
  show ?case
  proof (cases "d0 \<in> set c")
    case False
    with Cons p show ?thesis by auto
  next
    case True
    let ?v = "dict_get sc d0 0 + bm25_term (k1 s) (b s) i f0 (doc_len s ! d0) (avgdl s)"
    from Cons.prems(1) p True have run: "score_postings s i c ps (dict_set d0 ?v sc) = Inr sc'"
      by (auto split: if_splits)
    have "0 < ?v"
      using dict_get_nonneg [OF Cons.prems(2), of d0] Cons.prems(3) p by fastforce
    then have "\<forall>q \<in> set (dict_set d0 ?v sc). 0 < snd q"
      using set_dict_set [of d0 ?v sc] Cons.prems(2) by fastforce
    then show ?thesis
      using Cons.IH [OF run] Cons.prems(3) by simp
  qed
qed

lemma bm25_term_pos:
  assumes "0 \<le> kk" and "0 \<le> bb" and "bb \<le> 1" and "1 \<le> f" and "0 < avg" and "0 < i"
  shows "0 < bm25_term kk bb i f dl avg"
proof -
  have "0 < bm25_denom kk bb f dl avg"
    using assms(1-5) by (rule bm25_denom_pos)
  moreover have "0 < i * real f * (kk + 1)"
    using assms by simp
  ultimately show ?thesis
    unfolding bm25_term_def by (rule divide_pos_pos [rotated])
qed

lemma score_tokens_pos:
  assumes "built_ok s" and "0 \<le> k1 s" and "0 \<le> b s" and "b s \<le> 1"
    and "score_tokens s c toks sc = Inr sc'" and "\<forall>p \<in> set sc. 0 < snd p"
  shows "\<forall>p \<in> set sc'. 0 < snd p"
  using assms(5,6)
proof (induction toks arbitrary: sc)
  case Nil
  then show ?case by simp
next
  case (Cons tok toks)
  show ?case
  proof (cases "postings s tok")
    case None
    then show ?thesis using Cons by simp
  next
    case (Some ps)
    let ?i = "case idf s tok of None \<Rightarrow> 0 | Some v \<Rightarrow> v"
    from Some Cons.prems(1) obtain sc1 where
      1: "score_postings s ?i c ps sc = Inr sc1" and 2: "score_tokens s c toks sc1 = Inr sc'"
      by (auto split: sum.splits)
    have i: "0 < ?i"
      using built_idf_postings [OF assms(1) Some] built_idf_pos [OF assms(1)] by simp
    have "\<forall>p \<in> set ps. 0 < bm25_term (k1 s) (b s) ?i (snd p) (doc_len s ! fst p) (avgdl s)"
    proof
      fix p assume p: "p \<in> set ps"
      note f = built_posting_facts [OF assms(1) Some p]
      show "0 < bm25_term (k1 s) (b s) ?i (snd p) (doc_len s ! fst p) (avgdl s)"
        using assms(2-4) f(3,5) i by (rule bm25_term_pos)
    qed
    from score_postings_pos [OF 1 Cons.prems(2) this] Cons.IH [OF 2] show ?thesis by blast
  qed
qed

lemma score_postings_filter:
  "\<forall>p \<in> set ps. fst p < n \<Longrightarrow>
   score_postings s i (filter (\<lambda>x. x < n) c) ps sc = score_postings s i c ps sc"
  by (induction ps arbitrary: sc) auto

lemma score_tokens_filter:
  assumes "built_ok s"
  shows "score_tokens s (filter (\<lambda>x. x < N s) c) toks sc = score_tokens s c toks sc"
proof (induction toks arbitrary: sc)
  case Nil
  then show ?case by simp
next
  case (Cons tok toks)
  show ?case
  proof (cases "postings s tok")
    case None
    then show ?thesis using Cons by simp
  next
    case (Some ps)
    have "\<forall>p \<in> set ps. fst p < N s"
      using built_posting_facts(2) [OF assms Some] by blast
    then show ?thesis
      using Some Cons by (simp add: score_postings_filter split: sum.splits)
  qed
qed

lemma ranked_sorted: "sorted_wrt (\<lambda>x y. snd y \<le> snd x) (ranked sc)"
proof -
  have "sorted (map (\<lambda>x. - snd x) (ranked sc))"
    unfolding ranked_def by (rule sorted_sort_key)
  then show ?thesis
    by (simp add: sorted_map)
qed

lemma ranked_stable: "filter (\<lambda>x. snd x = v) (ranked sc) = filter (\<lambda>x. snd x = v) sc"
proof -
  have "filter (\<lambda>x. - snd x = - v) (ranked sc) = filter (\<lambda>x. - snd x = - v) sc"
    unfolding ranked_def by (rule sort_key_stable)
  then show ?thesis by simp
qed

section \<open>Evaluation of the example corpora\<close>

lemmas text_simps = strip_def lstrip_def rstrip_def is_space_def split_def startswith_def
  splitlines_def is_linebreak_def

lemma flat: "flatten_content \<lparr>Section = [], Subsection = [], Content = [Block ''pay'' []]\<rparr> = ''pay''"
  by (simp add: flatten_content_def text_simps)

lemma two_pay_fields:
  "postings two_pay = [''pay'' \<mapsto> [(0, 1), (1, 1)]]"
  "doc_len two_pay = [1, 1]"
  "avgdl two_pay = 1"
  "idf two_pay = [''pay'' \<mapsto> ln (6/5)]"
  "k1 two_pay = 1.5" "b two_pay = 0.75" "normalize two_pay = (\<lambda>x. x)"
  "raw_chunks two_pay = [''pay'', ''pay'']"
  by (simp_all add: two_pay_def load_and_prepare_def Let_def bm25_init_def flat text_simps dict_get_def fun_eq_iff idf_value_def)

section \<open>The BM25 sum\<close>

lemma score_subset_scores:
  "score_tokens s c (split (normalize s q)) [] = Inr scores \<Longrightarrow>
   score_subset s q c k = Inr (py_take k (ranked scores))"
  by (simp add: score_subset_def)

text \<open>
  C1. For an index built by \<open>load_and_prepare\<close> and constants \<open>0 \<le> k1\<close>, \<open>0 \<le> b \<le> 1\<close>,
  \<open>score_subset\<close> returns, and what it returns is cut from the accumulated scores: their keys
  are exactly the candidates that occur in the postings of some query token, and the score
  of each is the sum over the query tokens (with repetitions) of the contribution
  \<open>idf[term] * tf * (k1 + 1) / (tf + k1 * (1 - b + b * doc_len / avg_doc_len))\<close>; every term
  with postings has its \<open>idf\<close> entry.
\<close>

theorem score_subset_sums_contributions:
  assumes "s = load_and_prepare files (bm25_init nrm kk bb)"
    and "0 \<le> kk" and "0 \<le> bb" and "bb \<le> 1"
  shows "\<exists>scores.
           score_tokens s cands (split (nrm q)) [] = Inr scores
         \<and> score_subset s q cands top_k = Inr (py_take top_k (ranked scores))
         \<and> set (py_take top_k (ranked scores)) \<subseteq> set scores
         \<and> distinct (map fst scores)
         \<and> set (map fst scores) =
             {d. d \<in> set cands \<and>
                 (\<exists>tok ps f. tok \<in> set (split (nrm q)) \<and> postings s tok = Some ps \<and> (d, f) \<in> set ps)}
         \<and> (\<forall>d v. (d, v) \<in> set scores \<longrightarrow>
               v = (\<Sum>tok\<leftarrow>split (nrm q). contribution s tok d))
         \<and> (\<forall>tok ps. postings s tok = Some ps \<longrightarrow>
               idf s tok = Some (idf_value (N s) (length ps)))"
proof -
  have ok: "built_ok s"
    unfolding assms(1) by (rule load_and_prepare_ok)
  have par: "0 \<le> k1 s" "0 \<le> b s" "b s \<le> 1" and nrm: "normalize s = nrm"
    using assms by (simp_all add: bm25_init_def)
  obtain scores where sc: "score_tokens s cands (split (nrm q)) [] = Inr scores"
    using score_tokens_total [OF ok par] by blast
  note fin = final_scores [OF sc built_distinct [OF ok]]
  have 1: "score_subset s q cands top_k = Inr (py_take top_k (ranked scores))"
    using sc nrm by (simp add: score_subset_scores)
  have 2: "set (py_take top_k (ranked scores)) \<subseteq> set scores"
    using set_py_take [of top_k "ranked scores"] by (simp add: set_ranked)
  have 3: "set (map fst scores) =
             {d. d \<in> set cands \<and>
                 (\<exists>tok ps f. tok \<in> set (split (nrm q)) \<and> postings s tok = Some ps \<and> (d, f) \<in> set ps)}"
    unfolding fin(2) set_scored_ids by blast
  have 4: "\<forall>d v. (d, v) \<in> set scores \<longrightarrow> v = (\<Sum>tok\<leftarrow>split (nrm q). contribution s tok d)"
    using fin(3) by blast
  have 5: "\<forall>tok ps. postings s tok = Some ps \<longrightarrow> idf s tok = Some (idf_value (N s) (length ps))"
    using built_idf_postings [OF ok] by blast
  show ?thesis
    using sc 1 2 fin(1) 3 4 5 by blast
qed

theorem score_subset_sums_contributions_witness:
  "(0::real) \<le> 1.5 \<and> (0::real) \<le> 0.75 \<and> (0.75::real) \<le> 1
   \<and> (\<exists>scores.
          score_tokens two_pay [1, 0] (split ''pay'') [] = Inr scores
        \<and> score_subset two_pay ''pay'' [1, 0] 3 = Inr (py_take 3 (ranked scores))
        \<and> distinct (map fst scores))"
proof -
  from score_subset_sums_contributions [OF two_pay_def, where q = "''pay''" and cands = "[1, 0]" and top_k = 3]
  obtain scores where
    "score_tokens two_pay [1, 0] (split ''pay'') [] = Inr scores"
    "score_subset two_pay ''pay'' [1, 0] 3 = Inr (py_take 3 (ranked scores))"
    "distinct (map fst scores)"
    by auto
  then show ?thesis by auto
qed


section \<open>Blank text fields in the flatteners\<close>

text \<open>
  C9. The claim is that a block or list item whose text is empty or blank adds no line to
  the flattened string, at every depth and in both flatteners. The flatteners skip a blank
  block text, but not a blank list item: at depth 0 it adds an empty line, and at depth 1 a
  line holding the indentation and the marker. The entries below differ only in such items,
  and their flattened strings differ.
\<close>

theorem blank_list_item_adds_line:
  "flatten_content \<lparr>Section = [], Subsection = [], Content = [Block ''a'' [Item ''  '' []]]\<rparr>
     = ''a'' @ [CHR 0x0A]
   \<and> flatten_content \<lparr>Section = [], Subsection = [], Content = [Block ''a'' []]\<rparr> = ''a''
   \<and> flatten_content \<lparr>Section = [], Subsection = [],
        Content = [Block ''a'' [Item ''b'' [Item ''  '' []]]]\<rparr>
     = ''a'' @ [CHR 0x0A] @ ''b'' @ [CHR 0x0A] @ ''        * ''
   \<and> sem_flatten_content \<lparr>Section = [], Subsection = [], Content = [Block ''a'' [Item ''  '' []]]\<rparr>
     = ''a'' @ [CHR 0x0A, CHR 0x0A]
   \<and> sem_flatten_content \<lparr>Section = [], Subsection = [], Content = [Block ''a'' []]\<rparr> = ''a''
   \<and> sem_flatten_content \<lparr>Section = [], Subsection = [], Content = [Block '''' [Item ''a'' []]]\<rparr>
     = ''a''"
  by (simp add: flatten_content_def sem_flatten_content_def strip_def lstrip_def rstrip_def
      is_space_def is_bullet_line_def is_heading_def startswith_def eval_nat_numeral)


section \<open>Totality and positivity of scoring\<close>

text \<open>
  C3. For an index built by \<open>load_and_prepare\<close> and constants \<open>0 \<le> k1\<close>, \<open>0 \<le> b \<le> 1\<close>,
  \<open>score_subset\<close> returns a result for every query, candidate list and \<open>top_k\<close>: it neither
  divides by zero nor reads \<open>doc_len\<close> out of range. When \<open>avgdl\<close> is 0 the result is empty,
  and a query token without postings entry contributes nothing: the scores accumulated
  with it and without it are the same.
\<close>

theorem score_subset_never_raises:
  assumes "s = load_and_prepare files (bm25_init nrm kk bb)"
    and "0 \<le> kk" and "0 \<le> bb" and "bb \<le> 1"
  shows "(\<exists>res. score_subset s q cands top_k = Inr res)
       \<and> (avgdl s = 0 \<longrightarrow> score_subset s q cands top_k = Inr [])
       \<and> (postings s tok = None \<longrightarrow>
            contribution s tok d = 0
          \<and> score_tokens s cands (toks1 @ tok # toks2) sc = score_tokens s cands (toks1 @ toks2) sc)"
proof -
  have ok: "built_ok s"
    unfolding assms(1) by (rule load_and_prepare_ok)
  have par: "0 \<le> k1 s" "0 \<le> b s" "b s \<le> 1"
    using assms by (simp_all add: bm25_init_def)
  obtain scores where sc: "score_tokens s cands (split (normalize s q)) [] = Inr scores"
    using score_tokens_total [OF ok par] by blast
  then have 1: "\<exists>res. score_subset s q cands top_k = Inr res"
    by (simp add: score_subset_scores)
  have 2: "avgdl s = 0 \<longrightarrow> score_subset s q cands top_k = Inr []"
  proof
    assume "avgdl s = 0"
    then have "score_tokens s cands (split (normalize s q)) [] = Inr []"
      using built_avgdl_zero [OF ok] by (intro score_tokens_no_postings) blast
    then show "score_subset s q cands top_k = Inr []"
      by (simp add: score_subset_scores ranked_def py_take_def)
  qed
  have 3: "postings s tok = None \<longrightarrow>
            contribution s tok d = 0
          \<and> score_tokens s cands (toks1 @ tok # toks2) sc = score_tokens s cands (toks1 @ toks2) sc"
    by (auto simp: contribution_def score_tokens_append split: sum.splits)
  show ?thesis
    using 1 2 3 by blast
qed

lemma no_chunks_fields:
  "postings no_chunks = Map.empty" "avgdl no_chunks = 0" "N no_chunks = 0"
  "raw_chunks no_chunks = []" "normalize no_chunks = (\<lambda>x. x)"
  by (simp_all add: no_chunks_def load_and_prepare_def Let_def bm25_init_def)

theorem score_subset_never_raises_witness:
  "(0::real) \<le> 1.5 \<and> (0::real) \<le> 0.75 \<and> (0.75::real) \<le> 1
   \<and> avgdl no_chunks = 0 \<and> postings no_chunks ''pay'' = None
   \<and> score_subset no_chunks ''redundancy pay'' [0, 1] 3 = Inr []
   \<and> score_tokens no_chunks [0, 1] [''redundancy'', ''pay''] [] = score_tokens no_chunks [0, 1] [''redundancy''] []"
  using score_subset_never_raises [OF no_chunks_def, where q = "''redundancy pay''" and cands = "[0, 1]"
      and top_k = 3 and tok = "''pay''" and ?toks1.0 = "[''redundancy'']" and ?toks2.0 = "[]" and sc = "[]"]
  by (simp add: no_chunks_fields)

text \<open>
  C10. In an index built by \<open>load_and_prepare\<close> every \<open>idf\<close> value is strictly positive, and
  with constants \<open>0 \<le> k1\<close>, \<open>0 \<le> b \<le> 1\<close> every pair returned by \<open>score_subset\<close> carries a
  strictly positive score. Floats are real numbers here.
\<close>

theorem idf_and_scores_positive:
  assumes "s = load_and_prepare files (bm25_init nrm kk bb)"
  shows "(\<forall>tok v. idf s tok = Some v \<longrightarrow> 0 < v)
       \<and> (0 \<le> kk \<and> 0 \<le> bb \<and> bb \<le> 1 \<longrightarrow>
            (\<exists>res. score_subset s q cands top_k = Inr res
                 \<and> (\<forall>d v. (d, v) \<in> set res \<longrightarrow> 0 < v)))"
proof -
  have ok: "built_ok s"
    unfolding assms(1) by (rule load_and_prepare_ok)
  have 1: "\<forall>tok v. idf s tok = Some v \<longrightarrow> 0 < v"
    using built_idf_pos [OF ok] by blast
  have 2: "0 \<le> kk \<and> 0 \<le> bb \<and> bb \<le> 1 \<longrightarrow>
            (\<exists>res. score_subset s q cands top_k = Inr res
                 \<and> (\<forall>d v. (d, v) \<in> set res \<longrightarrow> 0 < v))"
  proof
    assume "0 \<le> kk \<and> 0 \<le> bb \<and> bb \<le> 1"
    then have par: "0 \<le> k1 s" "0 \<le> b s" "b s \<le> 1"
      using assms by (simp_all add: bm25_init_def)
    obtain scores where sc: "score_tokens s cands (split (normalize s q)) [] = Inr scores"
      using score_tokens_total [OF ok par] by blast
    have pos: "\<forall>p \<in> set scores. 0 < snd p"
      using score_tokens_pos [OF ok par sc] by simp
    have "set (py_take top_k (ranked scores)) \<subseteq> set scores"
      using set_py_take [of top_k "ranked scores"] by (simp add: set_ranked)
    then have "\<forall>d v. (d, v) \<in> set (py_take top_k (ranked scores)) \<longrightarrow> 0 < v"
      using pos by fastforce
    then show "\<exists>res. score_subset s q cands top_k = Inr res
                 \<and> (\<forall>d v. (d, v) \<in> set res \<longrightarrow> 0 < v)"
      using sc by (simp add: score_subset_scores)
  qed
  show ?thesis using 1 2 by blast
qed

lemma two_pay_score:
  "score_subset two_pay ''pay'' [1, 0] 3 = Inr [(0, ln (6/5)), (1, ln (6/5))]"
  by (simp add: score_subset_def two_pay_fields text_simps Let_def dict_get_def bm25_term_def
      bm25_denom_def ranked_def py_take_def)

theorem idf_and_scores_positive_witness:
  "idf two_pay ''pay'' = Some (ln (6/5)) \<and> (0::real) < ln (6/5)
   \<and> (0::real) \<le> 1.5 \<and> (0::real) \<le> 0.75 \<and> (0.75::real) \<le> 1
   \<and> score_subset two_pay ''pay'' [1, 0] 3 = Inr [(0, ln (6/5)), (1, ln (6/5))]"
proof -
  have i: "idf two_pay ''pay'' = Some (ln (6/5))"
    by (simp add: two_pay_fields)
  from idf_and_scores_positive [OF two_pay_def, where q = "''pay''" and cands = "[1, 0]" and top_k = 3]
  have "(0::real) < ln (6/5)"
    using i by blast
  then show ?thesis
    using i two_pay_score by simp
qed

section \<open>Ranking\<close>

text \<open>
  C2, as stated, fails. Both chunks of the example corpus score the same for the query
  \<open>pay\<close>; with the candidates given as \<open>[1, 0]\<close> the result lists chunk 0 first, so the tie
  is not broken by the order of the candidates. With \<open>top_k = -1\<close> the slice \<open>ranked[:-1]\<close>
  keeps one pair, which is more than \<open>top_k\<close>.
\<close>

theorem ties_not_in_candidate_order:
  "score_subset two_pay ''pay'' [1, 0] 3 = Inr [(0, ln (6/5)), (1, ln (6/5))]
   \<and> score_subset two_pay ''pay'' [1, 0] (-1) = Inr [(0, ln (6/5))]"
  by (simp add: score_subset_def two_pay_fields text_simps Let_def dict_get_def bm25_term_def
      bm25_denom_def ranked_def py_take_def)

text \<open>
  C2, amended. For a built index, constants in their range and \<open>0 \<le> top_k\<close>, \<open>score_subset\<close>
  returns the first \<open>top_k\<close> pairs of the ranking: at most \<open>top_k\<close> pairs, all of candidates,
  in descending order of score. The ranking is a stable sort of the accumulated scores, so
  pairs of equal score keep the order in which the scoring loops first met their chunks:
  by query token, and within a token by the order of its postings.
\<close>

theorem score_subset_ranking:
  assumes "s = load_and_prepare files (bm25_init nrm kk bb)"
    and "0 \<le> kk" and "0 \<le> bb" and "bb \<le> 1" and "0 \<le> top_k"
  shows "\<exists>scores res.
           score_tokens s cands (split (nrm q)) [] = Inr scores
         \<and> score_subset s q cands top_k = Inr res
         \<and> res = take (nat top_k) (ranked scores)
         \<and> length res \<le> nat top_k
         \<and> set (map fst res) \<subseteq> set cands
         \<and> sorted_wrt (\<lambda>x y. snd y \<le> snd x) res
         \<and> (\<forall>v. filter (\<lambda>x. snd x = v) (ranked scores) = filter (\<lambda>x. snd x = v) scores)
         \<and> map fst scores = first_seen [] (scored_ids s cands (split (nrm q)))"
proof -
  have ok: "built_ok s"
    unfolding assms(1) by (rule load_and_prepare_ok)
  have par: "0 \<le> k1 s" "0 \<le> b s" "b s \<le> 1" and nrm: "normalize s = nrm"
    using assms by (simp_all add: bm25_init_def)
  obtain scores where sc: "score_tokens s cands (split (nrm q)) [] = Inr scores"
    using score_tokens_total [OF ok par] by blast
  let ?res = "take (nat top_k) (ranked scores)"
  have 1: "score_subset s q cands top_k = Inr ?res"
    using sc nrm assms(5) by (simp add: score_subset_scores py_take_def)
  have 2: "length ?res \<le> nat top_k"
    by simp
  have "set ?res \<subseteq> set scores"
    using set_take_subset [of "nat top_k" "ranked scores"] by (simp add: set_ranked)
  then have 3: "set (map fst ?res) \<subseteq> set cands"
    using final_scores(3) [OF sc built_distinct [OF ok]] by fastforce
  have 4: "sorted_wrt (\<lambda>x y. snd y \<le> snd x) ?res"
    using ranked_sorted [of scores] by (rule sorted_wrt_take)
  have 5: "\<forall>v. filter (\<lambda>x. snd x = v) (ranked scores) = filter (\<lambda>x. snd x = v) scores"
    by (simp add: ranked_stable)
  have 6: "map fst scores = first_seen [] (scored_ids s cands (split (nrm q)))"
    using score_tokens_keys [OF sc] by simp
  show ?thesis
    using sc 1 2 3 4 5 6 by blast
qed

theorem score_subset_ranking_witness:
  "(0::real) \<le> 1.5 \<and> (0::real) \<le> 0.75 \<and> (0.75::real) \<le> 1 \<and> (0::int) \<le> 1
   \<and> (\<exists>scores res.
          score_tokens two_pay [1, 0] (split ''pay'') [] = Inr scores
        \<and> score_subset two_pay ''pay'' [1, 0] 1 = Inr res
        \<and> length res \<le> 1
        \<and> map fst scores = first_seen [] (scored_ids two_pay [1, 0] (split ''pay'')))"
proof -
  from score_subset_ranking [OF two_pay_def, where q = "''pay''" and cands = "[1, 0]" and top_k = 1]
  obtain scores res where
    "score_tokens two_pay [1, 0] (split ''pay'') [] = Inr scores"
    "score_subset two_pay ''pay'' [1, 0] 1 = Inr res"
    "length res \<le> nat 1"
    "map fst scores = first_seen [] (scored_ids two_pay [1, 0] (split ''pay''))"
    by auto
  then show ?thesis by auto
qed

lemma score_subset_filter:
  assumes "built_ok s"
  shows "score_subset s q (filter (\<lambda>x. x < N s) c) k = score_subset s q c k"
  by (simp add: score_subset_def score_tokens_filter [OF assms])


section \<open>Saturation in the term frequency\<close>

lemma saturating_fraction:
  fixes c :: real
  assumes "0 \<le> c" and "1 \<le> f1" and "f1 \<le> (f2::nat)"
  shows "real f1 / (real f1 + c) \<le> real f2 / (real f2 + c)" and "real f2 / (real f2 + c) \<le> 1"
proof -
  have p1: "0 < real f1 + c" and p2: "0 < real f2 + c"
    using assms by simp_all
  have "real f1 * c \<le> real f2 * c"
    using assms by (intro mult_right_mono) simp_all
  then have "real f1 * (real f2 + c) \<le> real f2 * (real f1 + c)"
    by (simp add: algebra_simps)
  then show "real f1 / (real f1 + c) \<le> real f2 / (real f2 + c)"
    using p1 p2 by (simp add: frac_le_eq field_simps)
  show "real f2 / (real f2 + c) \<le> 1"
    using p2 assms(1) by simp
qed

lemma bm25_term_fraction:
  "bm25_term kk bb i f dl avg =
     (i * (kk + 1)) * (real f / (real f + kk * (1 - bb + bb * real dl / avg)))"
  by (simp add: bm25_term_def bm25_denom_def)

text \<open>
  C8. For constants \<open>0 < k1\<close> and \<open>0 \<le> b \<le> 1\<close>, a fixed document length, a positive average
  length and a fixed non-negative \<open>idf\<close> (the values \<open>load_and_prepare\<close> stores are positive),
  the term that \<open>score_subset\<close> adds is non-decreasing in the term frequency over the
  positive integers, and it saturates: it never exceeds \<open>idf * (k1 + 1)\<close>.
\<close>

theorem bm25_term_monotone:
  assumes "0 < kk" and "0 \<le> bb" and "bb \<le> 1" and "0 \<le> i" and "0 < avg"
    and "1 \<le> f1" and "f1 \<le> f2"
  shows "bm25_term kk bb i f1 dl avg \<le> bm25_term kk bb i f2 dl avg
       \<and> bm25_term kk bb i f2 dl avg \<le> i * (kk + 1)"
proof -
  let ?c = "kk * (1 - bb + bb * real dl / avg)"
  have "0 \<le> bb * real dl / avg"
    using assms by simp
  then have "0 \<le> 1 - bb + bb * real dl / avg"
    using assms by linarith
  then have c: "0 \<le> ?c"
    using assms by simp
  have w: "0 \<le> i * (kk + 1)"
    using assms by simp
  note fr = saturating_fraction [OF c assms(6,7)]
  have "(i * (kk + 1)) * (real f1 / (real f1 + ?c)) \<le> (i * (kk + 1)) * (real f2 / (real f2 + ?c))"
    using fr(1) w by (rule mult_left_mono)
  moreover have "(i * (kk + 1)) * (real f2 / (real f2 + ?c)) \<le> (i * (kk + 1)) * 1"
    using fr(2) w by (rule mult_left_mono)
  ultimately show ?thesis
    by (simp add: bm25_term_fraction)
qed

theorem bm25_term_monotone_witness:
  "(0::real) < 1.5 \<and> (0::real) \<le> 0.75 \<and> (0.75::real) \<le> 1 \<and> (0::real) \<le> 2 \<and> (0::real) < 4
   \<and> (1::nat) \<le> 1 \<and> (1::nat) \<le> 3
   \<and> bm25_term 1.5 0.75 2 1 4 4 = 2 \<and> bm25_term 1.5 0.75 2 3 4 4 = 10 / 3
   \<and> bm25_term 1.5 0.75 2 1 4 4 \<le> bm25_term 1.5 0.75 2 3 4 4
   \<and> bm25_term 1.5 0.75 2 3 4 4 \<le> 2 * (1.5 + 1)"
proof -
  have v: "bm25_term 1.5 0.75 2 1 4 4 = 2" "bm25_term 1.5 0.75 2 3 4 4 = 10 / 3"
    by (simp_all add: bm25_term_def bm25_denom_def)
  from bm25_term_monotone [where kk = "1.5" and bb = "0.75" and i = 2 and avg = 4
      and ?f1.0 = 1 and ?f2.0 = 3 and dl = 4]
  have "bm25_term 1.5 0.75 2 1 4 4 \<le> bm25_term 1.5 0.75 2 3 4 4
       \<and> bm25_term 1.5 0.75 2 3 4 4 \<le> 2 * (1.5 + 1)"
    by simp
  then show ?thesis
    using v by simp
qed

section \<open>Validation of embeddings\<close>

lemma norm_single: "row_norm [Fin x] = Fin \<bar>x\<bar>"
  by (simp add: row_norm_def)

text \<open>
  C4. The claim is that \<open>embed\<close> raises as soon as a norm deviates from 1 by more than
  \<open>1e-6\<close>. The call \<open>np.allclose(norms, 1.0, atol=1e-6)\<close> adds the default relative tolerance
  \<open>rtol * |1.0| = 1e-5\<close> to \<open>atol\<close>, so a norm that is off by \<open>5e-6\<close> passes and the
  embeddings are returned.
\<close>

theorem embed_accepts_norm_off_by_5e_6:
  "embed \<lparr>model = (\<lambda>texts. [[Fin 1.000005]]), index = (\<lambda>q_emb top_k. ([], [])),
          ids = [], all_chunks = []\<rparr> [''pay'']
     = Inr [[Fin 1.000005]]
   \<and> row_norm [Fin 1.000005] = Fin 1.000005
   \<and> \<bar>1.000005 - 1\<bar> > (0.000001::real)"
  by (simp add: embed_def Let_def allclose_def norm_single)

section \<open>The hybrid retriever on a built index\<close>

lemma py_index_in_set: "py_index xs i = Inr x \<Longrightarrow> x \<in> set xs"
  by (auto simp: py_index_def split: if_splits)

lemma list_index_total: "x \<in> set xs \<Longrightarrow> \<exists>n. list_index xs x = Inr n"
  by (induction xs) auto

lemma lookup_hits_in_ids: "lookup_hits idl xs = Inr hits \<Longrightarrow> snd ` set hits \<subseteq> set idl"
proof (induction xs arbitrary: hits)
  case Nil
  then show ?case by simp
next
  case (Cons x xs)
  obtain score idx where x: "x = (score, idx)" by (cases x)
  show ?case
  proof (cases "py_index idl idx")
    case (Inl e)
    with Cons.prems x show ?thesis by simp
  next
    case (Inr cid)
    note cid = this
    show ?thesis
    proof (cases "lookup_hits idl xs")
      case (Inl e)
      with Cons.prems x cid show ?thesis by simp
    next
      case (Inr rest)
      with Cons.prems x cid have "hits = (score, cid) # rest" by simp
      then show ?thesis
        using py_index_in_set [OF cid] Cons.IH [OF Inr] by simp
    qed
  qed
qed

lemma query_hits_in_ids:
  assumes "query sx text k = Inr hits"
  shows "snd ` set hits \<subseteq> set (ids sx)"
proof (cases "embed sx [text]")
  case (Inl e)
  with assms show ?thesis by (simp add: query_def)
next
  case (Inr q_emb)
  with assms have
    "lookup_hits (ids sx) (zip (fst (index sx q_emb k)) (snd (index sx q_emb k))) = Inr hits"
    by (simp add: query_def Let_def)
  then show ?thesis by (rule lookup_hits_in_ids)
qed

lemma candidate_int_ids_total:
  "snd ` set hits \<subseteq> set idl \<Longrightarrow> \<exists>cands. candidate_int_ids idl hits = Inr cands"
proof (induction hits)
  case Nil
  show ?case by simp
next
  case (Cons hit hits)
  obtain score cid where hit: "hit = (score, cid)" by (cases hit)
  have "cid \<in> snd ` set (hit # hits)"
    unfolding hit by (simp add: image_iff)
  then have "cid \<in> set idl"
    using Cons.prems by (rule rev_subsetD)
  then have "\<exists>n. list_index idl cid = Inr n"
    by (rule list_index_total)
  then obtain n where n: "list_index idl cid = Inr n" ..
  have "snd ` set hits \<subseteq> set idl"
    using Cons.prems by (simp only: set_simps image_insert insert_subset)
  then have "\<exists>ns. candidate_int_ids idl hits = Inr ns"
    by (rule Cons.IH)
  then obtain ns where ns: "candidate_int_ids idl hits = Inr ns" ..
  have "candidate_int_ids idl (hit # hits) = Inr (n # ns)"
    unfolding hit by (simp add: n ns)
  then show ?case by blast
qed

lemma clean_hits_total:
  "\<forall>p \<in> set hits. fst p < length (raw_chunks s) \<Longrightarrow>
   clean_hits s hits acc = Inr (acc @ map (\<lambda>p. clean_chunk (raw_chunks s ! fst p)) hits)"
proof (induction hits arbitrary: acc)
  case Nil
  then show ?case by simp
next
  case (Cons p hits)
  obtain d v where p: "p = (d, v)" by (cases p)
  with Cons.prems have "d < length (raw_chunks s)" by simp
  then show ?case
    using Cons p by simp
qed

lemma scores_below_N:
  assumes "built_ok s" and "score_tokens s c toks [] = Inr scores" and "p \<in> set scores"
  shows "fst p < length (raw_chunks s)"
proof -
  have "fst p \<in> set (map fst scores)"
    using assms(3) by simp
  then have "fst p \<in> set (scored_ids s c toks)"
    using final_scores(2) [OF assms(2) built_distinct [OF assms(1)]] by simp
  then obtain tok ps f where "postings s tok = Some ps" and "(fst p, f) \<in> set ps"
    unfolding set_scored_ids by blast
  from built_posting_facts(2) [OF assms(1) this] show ?thesis
    using assms(1) by (simp add: built_ok_def)
qed

lemma run_built:
  assumes "built_ok (bm25 h)" and "0 \<le> k1 (bm25 h)" and "0 \<le> b (bm25 h)" and "b (bm25 h) \<le> 1"
    and "query (sb h) (hquery h) ks = Inr hits"
  shows "\<exists>cands scores.
           candidate_int_ids (ids (sb h)) hits = Inr cands
         \<and> score_tokens (bm25 h) cands (split (normalize (bm25 h) (hquery h))) [] = Inr scores
         \<and> run h ks kb =
             Inr (map (\<lambda>p. clean_chunk (raw_chunks (bm25 h) ! fst p)) (py_take kb (ranked scores)))
         \<and> (\<forall>p \<in> set scores. fst p < length (raw_chunks (bm25 h)))"
proof -
  obtain cands where c: "candidate_int_ids (ids (sb h)) hits = Inr cands"
    using candidate_int_ids_total [OF query_hits_in_ids [OF assms(5)]] by blast
  obtain scores where
    sc: "score_tokens (bm25 h) cands (split (normalize (bm25 h) (hquery h))) [] = Inr scores"
    using score_tokens_total [OF assms(1-4)] by blast
  have below: "\<forall>p \<in> set scores. fst p < length (raw_chunks (bm25 h))"
    using scores_below_N [OF assms(1) sc] by blast
  have "set (py_take kb (ranked scores)) \<subseteq> set scores"
    using set_py_take [of kb "ranked scores"] by (simp add: set_ranked)
  then have "\<forall>p \<in> set (py_take kb (ranked scores)). fst p < length (raw_chunks (bm25 h))"
    using below by blast
  then have "run h ks kb =
      Inr (map (\<lambda>p. clean_chunk (raw_chunks (bm25 h) ! fst p)) (py_take kb (ranked scores)))"
    using assms(5) c sc by (simp add: run_def score_subset_scores clean_hits_total)
  then show ?thesis
    using c sc below by blast
qed


section \<open>Cleaning of returned chunks\<close>

lemma join_nl_Cons:
  "join_nl (l # ls) = l @ (if ls = [] then [] else CHR 0x0A # join_nl ls)"
  by (cases ls) simp_all

lemma rstrip_prefix: "\<exists>t. s = rstrip s @ t"
proof -
  have "rev s = takeWhile is_space (rev s) @ dropWhile is_space (rev s)"
    by simp
  then have "s = rev (dropWhile is_space (rev s)) @ rev (takeWhile is_space (rev s))"
    by (metis rev_append rev_rev_ident)
  then show ?thesis
    unfolding rstrip_def by (rule exI)
qed

lemma startswith_rstrip:
  assumes "startswith (rstrip s) p"
  shows "startswith s p"
proof -
  obtain t where t: "s = rstrip s @ t"
    using rstrip_prefix [of s] ..
  have eq: "take (length p) (rstrip s) = p"
    using assms by (simp add: startswith_def)
  then have "length (take (length p) (rstrip s)) = length p"
    by simp
  then have "length p \<le> length (rstrip s)"
    by simp
  then have "take (length p) (rstrip s @ t) = take (length p) (rstrip s)"
    by simp
  then show ?thesis
    using eq t by (simp add: startswith_def)
qed

lemma lstrip_no_space: "l \<noteq> [] \<Longrightarrow> \<not> is_space (hd l) \<Longrightarrow> lstrip (l @ t) = l @ t"
  by (cases l) (simp_all add: lstrip_def)

lemma startswith_line:
  assumes "startswith (l @ (if ls = [] then [] else c # r)) p" and "c \<notin> set p"
  shows "startswith l p"
proof (cases "length p \<le> length l")
  case True
  then show ?thesis
    using assms(1) by (simp add: startswith_def)
next
  case short: False
  show ?thesis
  proof (cases "ls = []")
    case True
    with assms(1) show ?thesis by simp
  next
    case False
    with assms(1) have eq: "take (length p) (l @ c # r) = p"
      by (simp add: startswith_def)
    have len: "length l < length p"
      using short by simp
    have "take (length p) (l @ c # r) ! length l = (l @ c # r) ! length l"
      using len by (rule nth_take)
    then have "p ! length l = c"
      unfolding eq by simp
    then have "c \<in> set p"
      using len nth_mem by metis
    with assms(2) show ?thesis by simp
  qed
qed

lemma clean_chunk_section:
  assumes "startswith (clean_chunk c) ''Section:''"
  shows "\<exists>l ls. dropWhile (\<lambda>l. startswith l ''Section:'') (splitlines c) = l # ls
              \<and> (l = [] \<or> is_space (hd l))"
proof (cases "dropWhile (\<lambda>l. startswith l ''Section:'') (splitlines c)")
  case Nil
  have "clean_chunk c = []"
    unfolding clean_chunk_def Nil by (simp add: strip_def lstrip_def rstrip_def)
  with assms show ?thesis
    by (simp add: startswith_def)
next
  case (Cons l ls)
  have nohead: "\<not> startswith l ''Section:''"
    using hd_dropWhile [of "\<lambda>l. startswith l ''Section:''" "splitlines c"] Cons by simp
  show ?thesis
  proof (cases "l = [] \<or> is_space (hd l)")
    case True
    with Cons show ?thesis by simp
  next
    case False
    let ?t = "if ls = [] then [] else CHR 0x0A # join_nl ls"
    have "clean_chunk c = rstrip (lstrip (l @ ?t))"
      using Cons by (simp add: clean_chunk_def strip_def join_nl_Cons)
    also have "\<dots> = rstrip (l @ ?t)"
      using False by (simp add: lstrip_no_space)
    finally have "startswith (rstrip (l @ ?t)) ''Section:''"
      using assms by simp
    then have "startswith (l @ ?t) ''Section:''"
      by (rule startswith_rstrip)
    then have "startswith l ''Section:''"
      by (rule startswith_line) simp
    with nohead show ?thesis by simp
  qed
qed

section \<open>Evaluation of the example retrievers\<close>

lemma embed_unit: "model sx texts = [[Fin 1]] \<Longrightarrow> embed sx texts = Inr [[Fin 1]]"
  by (simp add: embed_def Let_def allclose_def row_norm_def)

lemma empty_query: "query empty_indexer ''pay'' 5 = Inl IndexError"
proof -
  have "embed empty_indexer [''pay''] = Inr [[Fin 1]]"
    by (rule embed_unit) (simp add: empty_indexer_def)
  then show ?thesis
    by (simp add: query_def Let_def empty_indexer_def py_index_def eval_nat_numeral)
qed

text \<open>
  C6. The claim is that a query against indices built from an empty corpus returns an
  empty list without raising, for \<open>score_subset\<close>, the semantic \<open>query\<close> and the hybrid
  \<open>run\<close>. \<open>score_subset\<close> does. \<open>query\<close> looks every returned label up in the empty ID list,
  so \<open>self.ids[-1]\<close> raises \<open>IndexError\<close>, and \<open>run\<close> propagates it.
\<close>

theorem empty_semantic_index_raises:
  "score_subset no_chunks ''pay'' [] 3 = Inr []
   \<and> query empty_indexer ''pay'' 5 = Inl IndexError
   \<and> run \<lparr>hquery = ''pay'', sb = empty_indexer, bm25 = no_chunks\<rparr> 5 3 = Inl IndexError"
  by (simp add: empty_query run_def score_subset_def no_chunks_fields text_simps ranked_def py_take_def)

lemma stale_query:
  "query (sb stale_hybrid) ''pay'' 3 =
     Inr [(1, ''a.json_chunk_2''), (1, ''a.json_chunk_1''), (1, ''a.json_chunk_0'')]"
proof -
  have "embed (sb stale_hybrid) [''pay''] = Inr [[Fin 1]]"
    by (rule embed_unit) (simp add: stale_hybrid_def)
  then show ?thesis
    by (simp add: query_def Let_def stale_hybrid_def py_index_def eval_nat_numeral)
qed

lemma stale_candidates:
  "candidate_int_ids (ids (sb stale_hybrid))
     [(1, ''a.json_chunk_2''), (1, ''a.json_chunk_1''), (1, ''a.json_chunk_0'')] = Inr [2, 1, 0]"
  by (simp add: stale_hybrid_def)

lemma stale_scores:
  "score_subset two_pay ''pay'' [2, 1, 0] 3 = Inr [(0, ln (6/5)), (1, ln (6/5))]"
  by (simp add: score_subset_def two_pay_fields text_simps Let_def dict_get_def bm25_term_def
      bm25_denom_def ranked_def py_take_def)

lemma stale_scores_neg:
  "score_subset two_pay ''pay'' [2, 1, 0] (- 1) = Inr [(0, ln (6/5))]"
  by (simp add: score_subset_def two_pay_fields text_simps Let_def dict_get_def bm25_term_def
      bm25_denom_def ranked_def py_take_def)

lemma clean_pay: "clean_chunk ''pay'' = ''pay''"
  by (simp add: clean_chunk_def text_simps)

text \<open>
  C7, as stated, fails. The semantic hit \<open>a.json_chunk_2\<close> has position 2 in the ID list
  while the lexical index has \<open>N = 2\<close> chunks, and \<open>run\<close> returns the two cleaned chunks of
  the other hits: no error is raised, and the returned list is all that \<open>run\<close> produces.
\<close>

theorem unmatched_hit_dropped_silently:
  "query (sb stale_hybrid) (hquery stale_hybrid) 3 =
     Inr [(1, ''a.json_chunk_2''), (1, ''a.json_chunk_1''), (1, ''a.json_chunk_0'')]
   \<and> list_index (ids (sb stale_hybrid)) ''a.json_chunk_2'' = Inr 2
   \<and> N (bm25 stale_hybrid) = 2
   \<and> run stale_hybrid 3 3 = Inr [''pay'', ''pay'']"
proof -
  have h: "hquery stale_hybrid = ''pay''" "bm25 stale_hybrid = two_pay"
    by (simp_all add: stale_hybrid_def)
  have n: "N two_pay = 2"
    by (simp add: two_pay_def load_and_prepare_def Let_def bm25_init_def flat)
  have i: "list_index (ids (sb stale_hybrid)) ''a.json_chunk_2'' = Inr 2"
    by (simp add: stale_hybrid_def)
  have r: "run stale_hybrid 3 3 = Inr [''pay'', ''pay'']"
    unfolding run_def h stale_query sum.case stale_candidates stale_scores
    by (simp add: two_pay_fields clean_pay)
  show ?thesis
    using stale_query h n i r by simp
qed

lemma heading_only_fields:
  "postings heading_only = [''section'' \<mapsto> [(0, 1)], ''pay'' \<mapsto> [(0, 1), (1, 1)]]"
  "doc_len heading_only = [2, 1]"
  "avgdl heading_only = 3 / 2"
  "idf heading_only = [''section'' \<mapsto> idf_value 2 1, ''pay'' \<mapsto> idf_value 2 2]"
  "k1 heading_only = 1.5" "b heading_only = 0.75"
  "normalize heading_only ''pay'' = ''pay''"
  "raw_chunks heading_only = [''Section: Pay.'', ''pay'']"
  by (simp_all add: heading_only_def load_and_prepare_def Let_def bm25_init_def flat
      flatten_content_def text_simps dict_get_def fun_eq_iff eval_nat_numeral)

lemma blank_item_fields:
  "postings blank_item = [''section'' \<mapsto> [(0, 1)], ''pay'' \<mapsto> [(0, 1)]]"
  "doc_len blank_item = [2]"
  "avgdl blank_item = 2"
  "idf blank_item = [''section'' \<mapsto> idf_value 1 1, ''pay'' \<mapsto> idf_value 1 1]"
  "k1 blank_item = 1.5" "b blank_item = 0.75"
  "normalize blank_item ''pay'' = ''pay''"
  "raw_chunks blank_item = [CHR 0x0A # ''Section: pay'']"
  by (simp_all add: blank_item_def load_and_prepare_def Let_def bm25_init_def
      flatten_content_def text_simps dict_get_def fun_eq_iff eval_nat_numeral)

lemma one_hit_query:
  assumes "model sx = (\<lambda>texts. [[Fin 1]])"
    and "index sx = (\<lambda>q_emb top_k. (take (nat top_k) [1], take (nat top_k) [0]))"
    and "ids sx = [''a.json_chunk_0'']"
  shows "query sx ''pay'' 1 = Inr [(1, ''a.json_chunk_0'')]"
proof -
  have "embed sx [''pay''] = Inr [[Fin 1]]"
    by (rule embed_unit) (simp add: assms)
  then show ?thesis
    by (simp add: query_def Let_def assms py_index_def)
qed

lemma heading_scores:
  "score_subset heading_only ''pay'' [0] 3 = Inr [(0, idf_value 2 2 * 20 / 23)]"
  by (simp add: score_subset_def heading_only_fields text_simps Let_def dict_get_def bm25_term_def
      bm25_denom_def ranked_def py_take_def)

lemma blank_scores:
  "score_subset blank_item ''pay'' [0] 3 = Inr [(0, idf_value 1 1)]"
  by (simp add: score_subset_def blank_item_fields text_simps Let_def dict_get_def bm25_term_def
      bm25_denom_def ranked_def py_take_def)

lemma clean_heading: "clean_chunk ''Section: Pay.'' = []"
  by (simp add: clean_chunk_def text_simps)

lemma clean_blank: "clean_chunk (CHR 0x0A # ''Section: pay'') = ''Section: pay''"
  by (simp add: clean_chunk_def text_simps)

text \<open>
  C5, as stated, fails. A chunk that consists of a section heading only is returned as the
  empty string, and a chunk whose first line is blank keeps the \<open>Section:\<close> line behind it,
  which \<open>strip\<close> then moves to the front. With \<open>top_k_bm25 = -1\<close> one string is
  returned, which is more than \<open>top_k_bm25\<close>.
\<close>

theorem run_returns_empty_and_heading:
  "run heading_hybrid 1 3 = Inr [[]]
   \<and> run blank_item_hybrid 1 3 = Inr [''Section: pay'']
   \<and> startswith ''Section: pay'' ''Section:''
   \<and> run stale_hybrid 3 (- 1) = Inr [''pay'']"
proof -
  have h3: "hquery stale_hybrid = ''pay''" "bm25 stale_hybrid = two_pay"
    by (simp_all add: stale_hybrid_def)
  have r3: "run stale_hybrid 3 (- 1) = Inr [''pay'']"
    unfolding run_def h3 stale_query sum.case stale_candidates stale_scores_neg
    by (simp add: two_pay_fields clean_pay)
  have q1: "query (sb heading_hybrid) ''pay'' 1 = Inr [(1, ''a.json_chunk_0'')]"
    by (rule one_hit_query) (simp_all add: heading_hybrid_def)
  have q2: "query (sb blank_item_hybrid) ''pay'' 1 = Inr [(1, ''a.json_chunk_0'')]"
    by (rule one_hit_query) (simp_all add: blank_item_hybrid_def)
  have h1: "hquery heading_hybrid = ''pay''" "bm25 heading_hybrid = heading_only"
    "ids (sb heading_hybrid) = [''a.json_chunk_0'']"
    by (simp_all add: heading_hybrid_def)
  have h2: "hquery blank_item_hybrid = ''pay''" "bm25 blank_item_hybrid = blank_item"
    "ids (sb blank_item_hybrid) = [''a.json_chunk_0'']"
    by (simp_all add: blank_item_hybrid_def)
  have c: "candidate_int_ids [''a.json_chunk_0''] [(1, ''a.json_chunk_0'')] = Inr [0]"
    by simp
  have r1: "run heading_hybrid 1 3 = Inr [[]]"
    unfolding run_def h1 q1 sum.case c heading_scores
    by (simp add: heading_only_fields clean_heading)
  have r2: "run blank_item_hybrid 1 3 = Inr [''Section: pay'']"
    unfolding run_def h2 q2 sum.case c blank_scores
    by (simp add: blank_item_fields clean_blank)
  show ?thesis
    using r1 r2 r3 by (simp add: startswith_def)
qed

section \<open>Results of the hybrid retriever\<close>

text \<open>
  C5, amended. On a built lexical index with constants in their range, \<open>0 \<le> top_k_bm25\<close>
  and a semantic query that returns, \<open>run\<close> returns at most \<open>top_k_bm25\<close> strings. Each is
  a raw chunk with its leading \<open>Section:\<close> lines removed and then stripped; it may be empty,
  and it begins with \<open>Section:\<close> only when the first line left after the removal is empty or
  begins with whitespace.
\<close>

theorem run_returns_cleaned_chunks:
  assumes "bm25 h = load_and_prepare files (bm25_init nrm kk bb)"
    and "0 \<le> kk" and "0 \<le> bb" and "bb \<le> 1" and "0 \<le> kb"
    and "query (sb h) (hquery h) ks = Inr hits"
  shows "\<exists>res. run h ks kb = Inr res
             \<and> length res \<le> nat kb
             \<and> (\<forall>r. r \<in> set res \<longrightarrow> (\<exists>c. c \<in> set (raw_chunks (bm25 h)) \<and> r = clean_chunk c))
             \<and> (\<forall>c. startswith (clean_chunk c) ''Section:'' \<longrightarrow>
                    (\<exists>l ls. dropWhile (\<lambda>l. startswith l ''Section:'') (splitlines c) = l # ls
                          \<and> (l = [] \<or> is_space (hd l))))"
proof -
  have ok: "built_ok (bm25 h)"
    unfolding assms(1) by (rule load_and_prepare_ok)
  have par: "0 \<le> k1 (bm25 h)" "0 \<le> b (bm25 h)" "b (bm25 h) \<le> 1"
    using assms(1-4) by (simp_all add: bm25_init_def)
  from run_built [OF ok par assms(6), of kb] obtain cands scores where
    r: "run h ks kb =
          Inr (map (\<lambda>p. clean_chunk (raw_chunks (bm25 h) ! fst p)) (py_take kb (ranked scores)))"
    and below: "\<forall>p \<in> set scores. fst p < length (raw_chunks (bm25 h))"
    by auto
  let ?hits = "py_take kb (ranked scores)"
  let ?res = "map (\<lambda>p. clean_chunk (raw_chunks (bm25 h) ! fst p)) ?hits"
  have 1: "length ?res \<le> nat kb"
    using assms(5) by (simp add: py_take_def)
  have sub: "set ?hits \<subseteq> set scores"
    using set_py_take [of kb "ranked scores"] by (simp add: set_ranked)
  have 2: "\<forall>r. r \<in> set ?res \<longrightarrow> (\<exists>c. c \<in> set (raw_chunks (bm25 h)) \<and> r = clean_chunk c)"
  proof (intro allI impI)
    fix r assume "r \<in> set ?res"
    then obtain p where p: "p \<in> set ?hits" and rp: "r = clean_chunk (raw_chunks (bm25 h) ! fst p)"
      by auto
    have "fst p < length (raw_chunks (bm25 h))"
      using p sub below by auto
    then have "raw_chunks (bm25 h) ! fst p \<in> set (raw_chunks (bm25 h))"
      by simp
    with rp show "\<exists>c. c \<in> set (raw_chunks (bm25 h)) \<and> r = clean_chunk c"
      by auto
  qed
  have 3: "\<forall>c. startswith (clean_chunk c) ''Section:'' \<longrightarrow>
                    (\<exists>l ls. dropWhile (\<lambda>l. startswith l ''Section:'') (splitlines c) = l # ls
                          \<and> (l = [] \<or> is_space (hd l)))"
    using clean_chunk_section by simp
  show ?thesis
    using r 1 2 3 by simp
qed

theorem run_returns_cleaned_chunks_witness:
  "(0::real) \<le> 1.5 \<and> (0::real) \<le> 0.75 \<and> (0.75::real) \<le> 1 \<and> (0::int) \<le> 3
   \<and> query (sb heading_hybrid) (hquery heading_hybrid) 1 = Inr [(1, ''a.json_chunk_0'')]
   \<and> (\<exists>res. run heading_hybrid 1 3 = Inr res \<and> length res \<le> 3)"
proof -
  have b: "bm25 heading_hybrid = load_and_prepare
     [[\<lparr>Section = ''Pay'', Subsection = [], Content = []\<rparr>,
       \<lparr>Section = [], Subsection = [], Content = [Block ''pay'' []]\<rparr>]]
     (bm25_init (\<lambda>x. if x = ''Section: Pay.'' then ''section pay'' else x) 1.5 0.75)"
    by (simp add: heading_hybrid_def heading_only_def)
  have "query (sb heading_hybrid) ''pay'' 1 = Inr [(1, ''a.json_chunk_0'')]"
    by (rule one_hit_query) (simp_all add: heading_hybrid_def)
  then have q: "query (sb heading_hybrid) (hquery heading_hybrid) 1 = Inr [(1, ''a.json_chunk_0'')]"
    by (simp add: heading_hybrid_def)
  from run_returns_cleaned_chunks [OF b _ _ _ _ q, of 3]
  obtain res where "run heading_hybrid 1 3 = Inr res" and "length res \<le> nat 3"
    by auto
  then show ?thesis
    using q by auto
qed

text \<open>
  C7, amended. On a built lexical index, when the semantic query returns, every hit is
  mapped to its position in the semantic ID list and \<open>run\<close> returns a result. Candidates
  at positions \<open>N\<close> and beyond, which have no lexical entry, are excluded without error or
  warning: the rerank and the result of \<open>run\<close> are the same as without them.
\<close>

theorem unmatched_hits_are_dropped:
  assumes "bm25 h = load_and_prepare files (bm25_init nrm kk bb)"
    and "0 \<le> kk" and "0 \<le> bb" and "bb \<le> 1"
    and "query (sb h) (hquery h) ks = Inr hits"
  shows "\<exists>cands res.
           candidate_int_ids (ids (sb h)) hits = Inr cands
         \<and> run h ks kb = Inr res
         \<and> score_subset (bm25 h) (hquery h) cands kb =
             score_subset (bm25 h) (hquery h) (filter (\<lambda>c. c < N (bm25 h)) cands) kb
         \<and> run h ks kb =
             (case score_subset (bm25 h) (hquery h) (filter (\<lambda>c. c < N (bm25 h)) cands) kb of
                Inl e \<Rightarrow> Inl e
              | Inr bm25_hits \<Rightarrow> clean_hits (bm25 h) bm25_hits [])"
proof -
  have ok: "built_ok (bm25 h)"
    unfolding assms(1) by (rule load_and_prepare_ok)
  have par: "0 \<le> k1 (bm25 h)" "0 \<le> b (bm25 h)" "b (bm25 h) \<le> 1"
    using assms(1-4) by (simp_all add: bm25_init_def)
  from run_built [OF ok par assms(5), of kb] obtain cands scores where
    c: "candidate_int_ids (ids (sb h)) hits = Inr cands"
    and r: "run h ks kb =
          Inr (map (\<lambda>p. clean_chunk (raw_chunks (bm25 h) ! fst p)) (py_take kb (ranked scores)))"
    by auto
  have f: "score_subset (bm25 h) (hquery h) cands kb =
             score_subset (bm25 h) (hquery h) (filter (\<lambda>c. c < N (bm25 h)) cands) kb"
    using score_subset_filter [OF ok] by simp
  have "run h ks kb =
          (case score_subset (bm25 h) (hquery h) cands kb of
             Inl e \<Rightarrow> Inl e
           | Inr bm25_hits \<Rightarrow> clean_hits (bm25 h) bm25_hits [])"
    using assms(5) c by (simp add: run_def)
  then have g: "run h ks kb =
             (case score_subset (bm25 h) (hquery h) (filter (\<lambda>c. c < N (bm25 h)) cands) kb of
                Inl e \<Rightarrow> Inl e
              | Inr bm25_hits \<Rightarrow> clean_hits (bm25 h) bm25_hits [])"
    unfolding f .
  show ?thesis
    by (rule exI [of _ cands], rule exI, intro conjI) (rule c, rule r, rule f, rule g)
qed

theorem unmatched_hits_are_dropped_witness:
  "(0::real) \<le> 1.5 \<and> (0::real) \<le> 0.75 \<and> (0.75::real) \<le> 1
   \<and> query (sb stale_hybrid) (hquery stale_hybrid) 3 =
       Inr [(1, ''a.json_chunk_2''), (1, ''a.json_chunk_1''), (1, ''a.json_chunk_0'')]
   \<and> candidate_int_ids (ids (sb stale_hybrid))
       [(1, ''a.json_chunk_2''), (1, ''a.json_chunk_1''), (1, ''a.json_chunk_0'')] = Inr [2, 1, 0]
   \<and> score_subset (bm25 stale_hybrid) (hquery stale_hybrid) [2, 1, 0] 3 =
       score_subset (bm25 stale_hybrid) (hquery stale_hybrid)
         (filter (\<lambda>c. c < N (bm25 stale_hybrid)) [2, 1, 0]) 3"
proof -
  have b: "bm25 stale_hybrid = load_and_prepare
     [[\<lparr>Section = [], Subsection = [], Content = [Block ''pay'' []]\<rparr>,
       \<lparr>Section = [], Subsection = [], Content = [Block ''pay'' []]\<rparr>]]
     (bm25_init (\<lambda>x. x) 1.5 0.75)"
    by (simp add: stale_hybrid_def two_pay_def)
  have q: "query (sb stale_hybrid) (hquery stale_hybrid) 3 =
       Inr [(1, ''a.json_chunk_2''), (1, ''a.json_chunk_1''), (1, ''a.json_chunk_0'')]"
    using stale_query by (simp add: stale_hybrid_def)
  from unmatched_hits_are_dropped [OF b _ _ _ q, of 3]
  obtain cands where
    "candidate_int_ids (ids (sb stale_hybrid))
       [(1, ''a.json_chunk_2''), (1, ''a.json_chunk_1''), (1, ''a.json_chunk_0'')] = Inr cands"
    and "score_subset (bm25 stale_hybrid) (hquery stale_hybrid) cands 3 =
       score_subset (bm25 stale_hybrid) (hquery stale_hybrid)
         (filter (\<lambda>c. c < N (bm25 stale_hybrid)) cands) 3"
    by auto
  then show ?thesis
    using q stale_candidates by simp
qed

end
